theory Spec2Isabelle
  imports Complex_Main "HOL-Library.Log_Nat" "HOL-Library.Word"
begin

section \<open>The float64 arithmetic used by computeBackoff\<close>

text \<open>
  \<^verbatim>\<open>computeBackoff\<close> (internal/indexer/client.go) computes in Go's \<^verbatim>\<open>float64\<close>.
  A float64 is modelled by its value: a rational, an infinity or NaN. Every operation
  returns the exact result rounded to the nearest float64, ties to even (\<open>rnd\<close>): 53
  significant bits, exponents from -1022 (gradual underflow, spacing \<open>2 powi -1074\<close>)
  and overflow to an infinity from \<open>2 ^ 1024\<close> on. The sign of a zero is not
  recorded: \<^verbatim>\<open>computeBackoff\<close> only multiplies, adds, compares and converts, and none of
  these tells the two zeros apart.
\<close>

datatype f64 = Fin rat | PInf | NInf | NaN

definition flog2 :: "rat \<Rightarrow> int" where
  \<comment> \<open>the binary exponent \<open>\<lfloor>log\<^sub>2 x\<rfloor>\<close> of a positive rational, from the bit lengths of
      its numerator and denominator\<close>
  "flog2 x = (let (p, q) = quotient_of x; d = bitlen p - bitlen q
              in if 2 powi d \<le> x then d else d - 1)"

definition rne :: "rat \<Rightarrow> int" where
  \<comment> \<open>round to the nearest integer, ties to the even one\<close>
  "rne q = (let n = \<lfloor>q\<rfloor>; d = q - of_int n
            in if d < 1/2 then n else if 1/2 < d then n + 1 else if even n then n else n + 1)"

definition expo :: "rat \<Rightarrow> int" where
  "expo x = max (flog2 \<bar>x\<bar>) (- 1022)"

definition ulp :: "rat \<Rightarrow> rat" where
  \<comment> \<open>the spacing of the float64 values around \<open>x\<close>\<close>
  "ulp x = 2 powi (expo x - 52)"

definition rval :: "rat \<Rightarrow> rat" where
  "rval x = of_int (rne (x / ulp x)) * ulp x"

definition rnd :: "rat \<Rightarrow> f64" where
  "rnd x = (let y = rval x
            in if 2 ^ 1024 \<le> y then PInf else if y \<le> - (2 ^ 1024) then NInf else Fin y)"

fun f64_neg :: "f64 \<Rightarrow> f64" where
  "f64_neg (Fin x) = Fin (- x)"
| "f64_neg PInf = NInf"
| "f64_neg NInf = PInf"
| "f64_neg NaN = NaN"

fun f64_add :: "f64 \<Rightarrow> f64 \<Rightarrow> f64" where
  "f64_add NaN _ = NaN"
| "f64_add _ NaN = NaN"
| "f64_add (Fin a) (Fin b) = rnd (a + b)"
| "f64_add PInf NInf = NaN"
| "f64_add NInf PInf = NaN"
| "f64_add PInf _ = PInf"
| "f64_add _ PInf = PInf"
| "f64_add NInf _ = NInf"
| "f64_add _ NInf = NInf"

definition f64_sub :: "f64 \<Rightarrow> f64 \<Rightarrow> f64" where
  "f64_sub x y = f64_add x (f64_neg y)"

fun f64_sgn :: "f64 \<Rightarrow> int" where
  "f64_sgn (Fin a) = (if a < 0 then - 1 else if a = 0 then 0 else 1)"
| "f64_sgn PInf = 1"
| "f64_sgn NInf = - 1"
| "f64_sgn NaN = 0"

fun f64_mul :: "f64 \<Rightarrow> f64 \<Rightarrow> f64" where
  "f64_mul NaN _ = NaN"
| "f64_mul _ NaN = NaN"
| "f64_mul (Fin a) (Fin b) = rnd (a * b)"
| "f64_mul x y =
     (if f64_sgn x * f64_sgn y = 0 then NaN
      else if 0 < f64_sgn x * f64_sgn y then PInf else NInf)"

fun f64_gt :: "f64 \<Rightarrow> f64 \<Rightarrow> bool" where
  "f64_gt NaN _ = False"
| "f64_gt _ NaN = False"
| "f64_gt (Fin a) (Fin b) = (b < a)"
| "f64_gt PInf PInf = False"
| "f64_gt PInf _ = True"
| "f64_gt _ PInf = False"
| "f64_gt NInf _ = False"
| "f64_gt _ NInf = True"

definition f64_of_int :: "int \<Rightarrow> f64" where
  \<comment> \<open>the conversion \<^verbatim>\<open>float64(i)\<close> of an integer\<close>
  "f64_of_int i = rnd (of_int i)"

definition f64_pow2 :: "int \<Rightarrow> f64" where
  \<comment> \<open>\<^verbatim>\<open>math.Pow(2, float64(n))\<close> for an integer \<open>n\<close>: a power of two is a float64 for
      exponents from -1074 to 1023; above, the result is +Inf, below, zero\<close>
  "f64_pow2 n = (if 1024 \<le> n then PInf else if n < - 1074 then Fin 0 else Fin (2 powi n))"

fun f64_to_int64 :: "f64 \<Rightarrow> int option" where
  \<comment> \<open>the conversion \<^verbatim>\<open>time.Duration(x)\<close> (an int64): the fraction is discarded; where
      the value does not fit (also for NaN and the infinities) Go leaves the result to
      the implementation, which is \<open>None\<close> here\<close>
  "f64_to_int64 (Fin x) =
     (let t = (if 0 \<le> x then \<lfloor>x\<rfloor> else \<lceil>x\<rceil>)
      in if - (2 ^ 63) \<le> t \<and> t < 2 ^ 63 then Some t else None)"
| "f64_to_int64 _ = None"

section \<open>The client and its environment\<close>

text \<open>
  A Go \<^verbatim>\<open>error\<close> value is carried by its message (\<^verbatim>\<open>err.Error()\<close>); a connection handle
  (\<^verbatim>\<open>*websocket.Conn\<close>) by a number; a message is its type and payload.
\<close>

datatype error = Error string

fun error_msg :: "error \<Rightarrow> string" where
  "error_msg (Error s) = s"

type_synonym conn = nat

type_synonym message = "int \<times> 8 word list"

text \<open>
  \<^verbatim>\<open>Config\<close>: the type's declaration is not among the sources; the fields are the ones
  client.go reads. \<^verbatim>\<open>BaseDelay\<close> and \<^verbatim>\<open>MaxDelay\<close> are \<^verbatim>\<open>time.Duration\<close>s (an int64 count
  of nanoseconds), \<^verbatim>\<open>JitterFactor\<close> is a float64.
\<close>

record Config =
  URL :: string
  BaseDelay :: int
  MaxDelay :: int
  JitterFactor :: f64

text \<open>
  \<^verbatim>\<open>MessageHandler\<close> is a Go closure: it is given the message and returns an error or nil;
  whatever state it keeps is threaded through (\<open>'h\<close>). The \<^verbatim>\<open>handler\<close> field may be nil.
\<close>

type_synonym 'h MessageHandler = "int \<Rightarrow> 8 word list \<Rightarrow> 'h \<Rightarrow> error option \<times> 'h"

text \<open>
  \<^verbatim>\<open>Client\<close>. The logger's output is kept in the world below. The mutex \<^verbatim>\<open>mu\<close> is not a
  field of the model: the two blocks it guards (in \<^verbatim>\<open>connect\<close> and \<^verbatim>\<open>close\<close>) are single
  state updates. \<^verbatim>\<open>reconnectCount\<close> is a Go \<^verbatim>\<open>int\<close> (64 bits, wrapping).
\<close>

record 'h Client =
  config :: Config
  handler :: "'h MessageHandler option"
  conn :: "conn option"
  isConnected :: bool
  reconnectCount :: "64 word"

text \<open>
  What the client does not control is an explicit world: the context (cancelled or not,
  with its reason), the events still to come from outside in the order in which they
  happen (the cancellation of the context, the result of a dial, the result of a read,
  the backoff timer firing), the random source, the handler's own state, and what the
  client has done so far: the connections it holds open, the delays it has waited for
  and the log records it has written.
\<close>

datatype event =
    EvCancel error
  | EvDial "error + conn"
  | EvRead "error + message"
  | EvTimer

datatype level = Info | Warn | Err

datatype log_value = LString string | LInt int | LDuration "int option"

type_synonym log_entry = "level \<times> string \<times> (string \<times> log_value) list"

record 'h world =
  ctx_err :: "error option"
  script :: "event list"
  rng :: "nat \<Rightarrow> f64"
  rng_pos :: nat
  hstate :: 'h
  open_conns :: "conn list"
  waits :: "int option list"
  logs :: "log_entry list"

text \<open>
  A function of the client returns, blocks for ever (the events ended, or the next one
  is not the one it waits for) or panics. A loop body continues or stops the loop.
\<close>

datatype 'a outcome = Returned 'a | Blocked | Panicked

datatype 'a step = Continue | Stop "'a outcome"

fun is_cancel :: "event \<Rightarrow> bool" where
  "is_cancel (EvCancel _) = True"
| "is_cancel _ = False"

definition deliver_cancel :: "'h world \<Rightarrow> 'h world" where
  \<comment> \<open>a cancellation that has happened by now is seen from now on: \<^verbatim>\<open>ctx.Done()\<close> stays
      closed and \<^verbatim>\<open>ctx.Err()\<close> keeps the first reason\<close>
  "deliver_cancel w =
     w\<lparr>ctx_err := (case ctx_err w of
                     Some e \<Rightarrow> Some e
                   | None \<Rightarrow> (case script w of EvCancel r # _ \<Rightarrow> Some r | _ \<Rightarrow> None)),
       script := dropWhile is_cancel (script w)\<rparr>"

definition log_append :: "level \<Rightarrow> string \<Rightarrow> (string \<times> log_value) list \<Rightarrow> 'h world \<Rightarrow> 'h world" where
  "log_append l m attrs w = w\<lparr>logs := logs w @ [(l, m, attrs)]\<rparr>"

definition rand_Float64 :: "'h world \<Rightarrow> f64 \<times> 'h world" where
  "rand_Float64 w = (rng w (rng_pos w), w\<lparr>rng_pos := rng_pos w + 1\<rparr>)"

definition NewClient ::
  "(Config \<Rightarrow> error option) \<Rightarrow> Config \<Rightarrow> 'h MessageHandler option \<Rightarrow> error + 'h Client" where
  \<comment> \<open>\<^verbatim>\<open>Config.Validate\<close> is not among the sources: it is the parameter \<open>validate\<close>\<close>
  "NewClient validate cfg h =
     (case validate cfg of
        Some err \<Rightarrow> Inl err
      | None \<Rightarrow> Inr \<lparr>config = cfg, handler = h, conn = None, isConnected = False,
                     reconnectCount = 0\<rparr>)"

text \<open>
  \<^verbatim>\<open>computeBackoff\<close>. The attempt count is read as a signed number; \<^verbatim>\<open>rand.Float64()\<close> is
  called only when the jitter factor is positive, and takes the next number of the
  random source.
\<close>

definition computeBackoff :: "'h Client \<Rightarrow> 'h world \<Rightarrow> int option \<times> 'h world" where
  "computeBackoff c w =
     (let backoff = f64_mul (f64_of_int (BaseDelay (config c)))
                            (f64_pow2 (sint (reconnectCount c)));
          backoff = (if f64_gt backoff (f64_of_int (MaxDelay (config c)))
                     then f64_of_int (MaxDelay (config c)) else backoff)
      in if f64_gt (JitterFactor (config c)) (Fin 0)
         then (let (r, w) = rand_Float64 w;
                   jitter = f64_mul (f64_sub r (Fin (1/2))) (JitterFactor (config c));
                   backoff = f64_mul backoff (f64_add (Fin 1) jitter)
               in (f64_to_int64 backoff, w))
         else (f64_to_int64 backoff, w))"

text \<open>
  \<^verbatim>\<open>close\<close> and \<^verbatim>\<open>connect\<close>. Closing a connection takes it out of the open ones; an error of
  \<^verbatim>\<open>conn.Close()\<close> is dropped, as in the source. The result of \<^verbatim>\<open>DialContext\<close> is the next
  event: an error, or a new connection, which is then open. A cancellation that happens
  while the dial is under way is delivered to the context first.
\<close>

definition close :: "'h Client \<Rightarrow> 'h world \<Rightarrow> 'h Client \<times> 'h world" where
  "close c w =
     (let (c, w) = (case conn c of
                      Some k \<Rightarrow> (c\<lparr>conn := None\<rparr>, w\<lparr>open_conns := remove1 k (open_conns w)\<rparr>)
                    | None \<Rightarrow> (c, w))
      in (c\<lparr>isConnected := False\<rparr>, w))"

definition connect :: "'h Client \<Rightarrow> 'h world \<Rightarrow> error option outcome \<times> 'h Client \<times> 'h world" where
  "connect c w =
     (let w = log_append Info ''connecting to jetstream'' [(''url'', LString (URL (config c)))] w;
          w = deliver_cancel w
      in case script w of
           EvDial (Inl err) # rest \<Rightarrow> (Returned (Some err), c, w\<lparr>script := rest\<rparr>)
         | EvDial (Inr k) # rest \<Rightarrow>
             (Returned None, c\<lparr>conn := Some k, isConnected := True\<rparr>,
              log_append Info ''connected to jetstream'' []
                (w\<lparr>script := rest, open_conns := open_conns w @ [k]\<rparr>))
         | _ \<Rightarrow> (Blocked, c, w))"

text \<open>
  \<^verbatim>\<open>readLoop\<close>: \<open>readLoop_step\<close> is the body of its \<^verbatim>\<open>for\<close> loop, \<open>readLoop\<close> the loop. The
  body polls the context, reads (the result of \<^verbatim>\<open>ReadMessage\<close> is the next event; reading
  through a nil handle would panic) and passes the message to the handler, if there is
  one. Each iteration that continues has consumed an event, so the loop ends.
\<close>

definition readLoop_step :: "'h Client \<Rightarrow> 'h world \<Rightarrow> unit step \<times> 'h Client \<times> 'h world" where
  "readLoop_step c w =
     (let w = deliver_cancel w
      in if ctx_err w \<noteq> None then (Stop (Returned ()), c, w)
         else case conn c of
           None \<Rightarrow> (Stop Panicked, c, w)
         | Some k \<Rightarrow>
            (case script w of
               EvRead (Inl err) # rest \<Rightarrow>
                 (let w = log_append Warn ''jetstream connection closed''
                            [(''error'', LString (error_msg err))] (w\<lparr>script := rest\<rparr>);
                      (c, w) = close c w
                  in (Stop (Returned ()), c, w))
             | EvRead (Inr (messageType, payload)) # rest \<Rightarrow>
                 (let w = w\<lparr>script := rest\<rparr>
                  in case handler c of
                       None \<Rightarrow> (Continue, c, w)
                     | Some h \<Rightarrow>
                        (case h messageType payload (hstate w) of
                           (Some err, hs) \<Rightarrow>
                             (let w = log_append Err ''message handler error''
                                        [(''error'', LString (error_msg err))] (w\<lparr>hstate := hs\<rparr>);
                                  (c, w) = close c w
                              in (Stop (Returned ()), c, w))
                         | (None, hs) \<Rightarrow> (Continue, c, w\<lparr>hstate := hs\<rparr>)))
             | _ \<Rightarrow> (Stop Blocked, c, w)))"

function readLoop :: "'h Client \<Rightarrow> 'h world \<Rightarrow> unit outcome \<times> 'h Client \<times> 'h world" where
  "readLoop c w =
     (case readLoop_step c w of
        (Continue, c', w') \<Rightarrow> readLoop c' w'
      | (Stop out, c', w') \<Rightarrow> (out, c', w'))"
  by pat_completeness auto

lemma deliver_cancel_length: "length (script (deliver_cancel w)) \<le> length (script w)"
  by (simp add: deliver_cancel_def length_dropWhile_le)

lemma readLoop_step_length:
  assumes "readLoop_step c w = (Continue, c', w')"
  shows "length (script w') < length (script w)"
proof -
  have "length (script w') < length (script (deliver_cancel w))"
    using assms
    by (auto simp: readLoop_step_def Let_def close_def log_append_def
             split: if_splits option.splits list.splits event.splits sum.splits prod.splits)
  with deliver_cancel_length[of w] show ?thesis by simp
qed

termination readLoop
  by (relation "measure (\<lambda>(c, w). length (script w))") (auto dest: readLoop_step_length[OF sym])

declare readLoop.simps [simp del]

text \<open>
  \<^verbatim>\<open>Run\<close>: \<open>Run_step\<close> is the body of its \<^verbatim>\<open>for\<close> loop, \<open>Run\<close> the loop. The delay given
  to \<^verbatim>\<open>time.After\<close> is recorded in \<open>waits\<close>. In the \<^verbatim>\<open>select\<close> of the backoff wait the
  timer's branch is taken when the timer's event is the next one; otherwise the
  cancellation's branch is taken if the context is cancelled, and the wait goes on if it
  is not. (Go chooses either branch when both are ready; both are behaviours of the model,
  for different events to come.)
\<close>

definition Run_step :: "'h Client \<Rightarrow> 'h world \<Rightarrow> error option step \<times> 'h Client \<times> 'h world" where
  "Run_step c w =
     (let w = deliver_cancel w
      in if ctx_err w \<noteq> None
         then (let w = log_append Info ''jetstream client stopping due to context cancellation'' [] w;
                   (c, w) = close c w
               in (Stop (Returned (ctx_err w)), c, w))
         else case connect c w of
           (Returned (Some err), c, w) \<Rightarrow>
             (let w = log_append Warn ''jetstream connection failed''
                        [(''error'', LString (error_msg err)),
                         (''attempt'', LInt (sint (reconnectCount c + 1)))] w;
                  (delay, w) = computeBackoff c w;
                  c = c\<lparr>reconnectCount := reconnectCount c + 1\<rparr>;
                  w = log_append Info ''scheduling reconnect''
                        [(''delay'', LDuration delay),
                         (''attempt'', LInt (sint (reconnectCount c)))] w;
                  w = deliver_cancel (w\<lparr>waits := waits w @ [delay]\<rparr>)
              in case script w of
                   EvTimer # rest \<Rightarrow> (Continue, c, w\<lparr>script := rest\<rparr>)
                 | _ \<Rightarrow> if ctx_err w \<noteq> None then (Stop (Returned (ctx_err w)), c, w)
                        else (Stop Blocked, c, w))
         | (Returned None, c, w) \<Rightarrow>
             (let c = c\<lparr>reconnectCount := 0\<rparr>
              in case readLoop c w of
                   (Returned u, c, w) \<Rightarrow> (Continue, c, w)
                 | (Blocked, c, w) \<Rightarrow> (Stop Blocked, c, w)
                 | (Panicked, c, w) \<Rightarrow> (Stop Panicked, c, w))
         | (Blocked, c, w) \<Rightarrow> (Stop Blocked, c, w)
         | (Panicked, c, w) \<Rightarrow> (Stop Panicked, c, w))"

function Run :: "'h Client \<Rightarrow> 'h world \<Rightarrow> error option outcome \<times> 'h Client \<times> 'h world" where
  "Run c w =
     (case Run_step c w of
        (Continue, c', w') \<Rightarrow> Run c' w'
      | (Stop out, c', w') \<Rightarrow> (out, c', w'))"
  by pat_completeness auto

definition IsConnected :: "'h Client \<Rightarrow> bool" where
  "IsConnected c = isConnected c"

lemma readLoop_length: "readLoop c w = (out, c', w') \<Longrightarrow> length (script w') \<le> length (script w)"
proof (induction c w arbitrary: out c' w' rule: readLoop.induct)
  case (1 c w)
  obtain s c1 w1 where st: "readLoop_step c w = (s, c1, w1)" by (cases "readLoop_step c w")
  show ?case
  proof (cases s)
    case Continue
    with st 1 have "length (script w') \<le> length (script w1)"
      by (auto simp: readLoop.simps[of c w])
    with readLoop_step_length[of c w c1 w1] st Continue show ?thesis by simp
  next
    case (Stop o')
    with st "1.prems" have w': "w' = w1" by (simp add: readLoop.simps[of c w])
    have "length (script w1) \<le> length (script (deliver_cancel w))"
      using st Stop
      by (auto simp: readLoop_step_def Let_def close_def log_append_def
               split: if_splits option.splits list.splits event.splits sum.splits prod.splits)
    with deliver_cancel_length[of w] w' show ?thesis by simp
  qed
qed

lemma computeBackoff_script: "script (snd (computeBackoff c w)) = script w"
  by (simp add: computeBackoff_def Let_def rand_Float64_def split: prod.splits)

lemma connect_length:
  assumes "connect c w = (Returned r, c', w')"
  shows "length (script w') < length (script w)"
proof -
  let ?w = "deliver_cancel (log_append Info ''connecting to jetstream'' [(''url'', LString (URL (config c)))] w)"
  have "length (script w') < length (script ?w)"
    using assms
    by (auto simp: connect_def Let_def log_append_def
             split: list.splits event.splits sum.splits)
  moreover have "length (script ?w) \<le> length (script w)"
    using deliver_cancel_length[of "log_append Info ''connecting to jetstream'' [(''url'', LString (URL (config c)))] w"]
    by (simp add: log_append_def)
  ultimately show ?thesis by simp
qed

lemma Run_step_length:
  assumes "Run_step c w = (Continue, c', w')"
  shows "length (script w') < length (script w)"
proof -
  let ?w = "deliver_cancel w"
  from assms have nc: "ctx_err ?w = None"
    by (auto simp: Run_step_def Let_def split: if_splits prod.splits)
  obtain r c1 w1 where cn: "connect c ?w = (r, c1, w1)" by (cases "connect c ?w")
  from assms nc cn obtain x where r: "r = Returned x"
    by (cases r) (auto simp: Run_step_def Let_def)
  have l1: "length (script w1) < length (script ?w)" using cn r connect_length by blast
  have "length (script w') \<le> length (script w1)"
  proof (cases x)
    case None
    with assms nc cn r show ?thesis
      by (auto simp: Run_step_def Let_def split: prod.splits outcome.splits dest: readLoop_length)
  next
    case (Some err)
    obtain d w2 where cb: "computeBackoff c1 (log_append Warn ''jetstream connection failed''
                        [(''error'', LString (error_msg err)),
                         (''attempt'', LInt (sint (reconnectCount c1 + 1)))] w1) = (d, w2)"
      by (cases "computeBackoff c1 (log_append Warn ''jetstream connection failed''
                        [(''error'', LString (error_msg err)),
                         (''attempt'', LInt (sint (reconnectCount c1 + 1)))] w1)")
    have s2: "script w2 = script w1"
      using computeBackoff_script[of c1 "log_append Warn ''jetstream connection failed''
                        [(''error'', LString (error_msg err)),
                         (''attempt'', LInt (sint (reconnectCount c1 + 1)))] w1"] cb
      by (simp add: log_append_def)
    let ?w3 = "deliver_cancel (log_append Info ''scheduling reconnect''
                        [(''delay'', LDuration d),
                         (''attempt'', LInt (sint (reconnectCount c1 + 1)))] w2\<lparr>waits := waits w2 @ [d]\<rparr>)"
    have "length (script ?w3) \<le> length (script w1)"
      using deliver_cancel_length[of "log_append Info ''scheduling reconnect''
                        [(''delay'', LDuration d),
                         (''attempt'', LInt (sint (reconnectCount c1 + 1)))] w2\<lparr>waits := waits w2 @ [d]\<rparr>"] s2
      by (simp add: log_append_def)
    moreover have "length (script w') \<le> length (script ?w3)"
      using assms nc cn r Some cb
      by (auto simp: Run_step_def Let_def log_append_def split: list.splits event.splits if_splits)
    ultimately show ?thesis by simp
  qed
  with l1 deliver_cancel_length[of w] show ?thesis by simp
qed

termination Run
  by (relation "measure (\<lambda>(c, w). length (script w))") (auto dest: Run_step_length[OF sym])

declare Run.simps [simp del]

section \<open>Auxiliary definitions for the statements\<close>

text \<open>
  The value of \<^verbatim>\<open>backoff\<close> in \<^verbatim>\<open>computeBackoff\<close> after the cap and before the jitter
  (client.go, lines 160 to 165), for a configuration and an attempt count.
\<close>

definition capped_backoff :: "Config \<Rightarrow> int \<Rightarrow> f64" where
  "capped_backoff cfg n =
     (let backoff = f64_mul (f64_of_int (BaseDelay cfg)) (f64_pow2 n)
      in if f64_gt backoff (f64_of_int (MaxDelay cfg)) then f64_of_int (MaxDelay cfg) else backoff)"

text \<open>
  The ends of the spec's jitter interval as the code can reach them: \<open>raw \<times> (1 + x \<times> f)\<close>
  evaluated in float64 and converted to a \<^verbatim>\<open>time.Duration\<close>, at \<open>x = -1/2\<close> and \<open>x = 1/2\<close>.
  \<open>scale\<close> is its value before the conversion, when no step overflows.
\<close>

definition jitter_scaled :: "f64 \<Rightarrow> f64 \<Rightarrow> f64 \<Rightarrow> int option" where
  "jitter_scaled raw f x = f64_to_int64 (f64_mul raw (f64_add (Fin 1) (f64_mul x f)))"

definition scale :: "rat \<Rightarrow> rat \<Rightarrow> rat \<Rightarrow> rat" where
  "scale y f x = rval (y * rval (1 + rval (x * f)))"

text \<open>Concrete inputs: a random source that always draws the same number, a client as
  \<^verbatim>\<open>NewClient\<close> returns it (no handler), a world with the events to come.\<close>

definition const_rng :: "f64 \<Rightarrow> nat \<Rightarrow> f64" where
  "const_rng x i = x"

definition fresh_client :: "Config \<Rightarrow> unit Client" where
  "fresh_client cfg = \<lparr>config = cfg, handler = None, conn = None, isConnected = False, reconnectCount = 0\<rparr>"

definition world_of :: "f64 \<Rightarrow> event list \<Rightarrow> unit world" where
  "world_of r evs = \<lparr>ctx_err = None, script = evs, rng = const_rng r, rng_pos = 0, hstate = (),
                      open_conns = [], waits = [], logs = []\<rparr>"

text \<open>
  The next event that is not a cancellation; the invariant that ties the flag to the
  handle; the connections a client holds; the state between two iterations of \<^verbatim>\<open>Run\<close>;
  and what any of the client's functions may do to the context and the events to come
  (the context, once cancelled, stays cancelled with the same reason; a reason comes
  from the cancellation that happened; events are consumed, never added).
\<close>

definition next_event :: "'h world \<Rightarrow> event option" where
  "next_event w = (case script (deliver_cancel w) of [] \<Rightarrow> None | e # _ \<Rightarrow> Some e)"

definition consistent :: "'h Client \<Rightarrow> bool" where
  "consistent c = (isConnected c \<longleftrightarrow> conn c \<noteq> None)"

definition held :: "'h Client \<Rightarrow> conn list" where
  "held c = (case conn c of None \<Rightarrow> [] | Some k \<Rightarrow> [k])"

definition run_inv :: "'h Client \<Rightarrow> 'h world \<Rightarrow> bool" where
  "run_inv c w \<longleftrightarrow> (ctx_err w = None \<longrightarrow> conn c = None) \<and> consistent c \<and> open_conns w = held c"

definition evolves :: "'h world \<Rightarrow> 'h world \<Rightarrow> bool" where
  "evolves w w' \<longleftrightarrow>
     (\<forall>e. ctx_err w = Some e \<longrightarrow> ctx_err w' = Some e)
   \<and> (\<forall>e. ctx_err w' = Some e \<longrightarrow> ctx_err w = Some e \<or> EvCancel e \<in> set (script w))
   \<and> set (script w') \<subseteq> set (script w)"

text \<open>
  The blocks that \<^verbatim>\<open>connect\<close> (lines 107 to 110) and \<^verbatim>\<open>close\<close> (lines 147 to 154) run under
  the mutex, statement by statement: the state of the client after \<^verbatim>\<open>Lock\<close>, after each
  assignment and after \<^verbatim>\<open>Unlock\<close>, each with whether the mutex is held.
\<close>

definition connect_locked :: "'h Client \<Rightarrow> conn \<Rightarrow> (bool \<times> 'h Client) list" where
  "connect_locked c k =
     [(True, c),
      (True, c\<lparr>conn := Some k\<rparr>),
      (True, c\<lparr>conn := Some k, isConnected := True\<rparr>),
      (False, c\<lparr>conn := Some k, isConnected := True\<rparr>)]"

definition close_locked :: "'h Client \<Rightarrow> (bool \<times> 'h Client) list" where
  "close_locked c =
     (let c1 = (case conn c of Some k \<Rightarrow> c\<lparr>conn := None\<rparr> | None \<Rightarrow> c)
      in [(True, c), (True, c1), (True, c1\<lparr>isConnected := False\<rparr>), (False, c1\<lparr>isConnected := False\<rparr>)])"

text \<open>More concrete inputs: a validation that accepts every configuration, a handler that
  rejects every message, a configuration.\<close>

definition accept_all :: "Config \<Rightarrow> error option" where
  "accept_all cfg = None"

definition reject_all :: "unit MessageHandler" where
  "reject_all messageType payload hs = (Some (Error ''rejected''), hs)"

definition example_config :: Config where
  "example_config = \<lparr>URL = ''wss://jetstream'', BaseDelay = 100000000, MaxDelay = 1600000000,
                      JitterFactor = Fin 0\<rparr>"

section \<open>Rounding: exact values and monotonicity\<close>

lemma pow2_less_iff: "(2::rat) powi a < 2 powi b \<longleftrightarrow> a < b"
proof
  assume h: "(2::rat) powi a < 2 powi b"
  show "a < b"
  proof (rule ccontr)
    assume "\<not> a < b"
    then have "b \<le> a" by simp
    then have "(2::rat) powi b \<le> 2 powi a" by (intro power_int_increasing) auto
    with h show False by simp
  qed
next
  assume "a < b"
  then show "(2::rat) powi a < 2 powi b" by (intro power_int_strict_increasing) auto
qed

lemma pow2_le_iff: "(2::rat) powi a \<le> 2 powi b \<longleftrightarrow> a \<le> b"
  using pow2_less_iff[of b a] by (auto simp: not_less[symmetric])

lemma pow2_pos: "(0::rat) < 2 powi a"
  by (simp add: zero_less_power_int)

lemma bitlen_powi_bounds:
  assumes "0 < p"
  shows "(2::rat) powi (bitlen p - 1) \<le> of_int p" "of_int p < (2::rat) powi (bitlen p)"
proof -
  from bitlen_bounds[OF assms] have a: "2 ^ nat (bitlen p - 1) \<le> p" and b: "p < 2 ^ nat (bitlen p)" by auto
  have ge1: "1 \<le> bitlen p" using assms by (auto simp: bitlen_alt_def)
  have "(2::rat) powi (bitlen p - 1) = 2 ^ nat (bitlen p - 1)"
    using ge1 by (simp add: power_int_nonneg_exp)
  also have "\<dots> = of_int (2 ^ nat (bitlen p - 1))" by simp
  also have "\<dots> \<le> of_int p" using a by (simp only: of_int_le_iff)
  finally show "(2::rat) powi (bitlen p - 1) \<le> of_int p" .
  have "(of_int p :: rat) < of_int (2 ^ nat (bitlen p))" using b by (simp only: of_int_less_iff)
  also have "\<dots> = 2 powi (bitlen p)" using ge1 by (simp add: power_int_nonneg_exp)
  finally show "of_int p < (2::rat) powi (bitlen p)" .
qed

lemma flog2_bounds:
  assumes "0 < x"
  shows "2 powi (flog2 x) \<le> x" "x < 2 powi (flog2 x + 1)"
proof -
  obtain p q where pq: "quotient_of x = (p, q)" by (cases "quotient_of x")
  have q: "0 < q" using pq by (rule quotient_of_denom_pos)
  have x: "x = of_int p / of_int q" using pq by (rule quotient_of_div)
  have p: "0 < p" using assms q x by (simp add: zero_less_divide_iff)
  define d where "d = bitlen p - bitlen q"
  note bp = bitlen_powi_bounds[OF p] and bq = bitlen_powi_bounds[OF q]
  have qpos: "(0::rat) < of_int q" using q by simp
  have "x * of_int q = of_int p" using x qpos by simp
  have up: "x < 2 powi (d + 1)"
  proof -
    have "of_int p < (2::rat) powi (bitlen p)" by (rule bp)
    also have "\<dots> = 2 powi (d + 1) * 2 powi (bitlen q - 1)"
      by (simp add: d_def flip: power_int_add)
    also have "\<dots> \<le> 2 powi (d + 1) * of_int q"
      using bq(1) by (intro mult_left_mono) auto
    finally show ?thesis using qpos x by (simp add: pos_divide_less_eq)
  qed
  have lo: "2 powi (d - 1) < x"
  proof -
    have "2 powi (d - 1) * of_int q < (2::rat) powi (d - 1) * 2 powi (bitlen q)"
      using bq(2) by (intro mult_strict_left_mono) auto
    also have "\<dots> = 2 powi (bitlen p - 1)"
      by (simp add: d_def flip: power_int_add)
    also have "\<dots> \<le> of_int p" by (rule bp)
    finally show ?thesis using qpos x by (simp add: pos_less_divide_eq)
  qed
  have f: "flog2 x = (if 2 powi d \<le> x then d else d - 1)"
    by (simp add: flog2_def pq d_def Let_def)
  show "2 powi (flog2 x) \<le> x" using lo by (simp add: f)
  show "x < 2 powi (flog2 x + 1)" using up by (auto simp add: f)
qed

lemma flog2_unique:
  assumes "0 < x" "2 powi e \<le> x" "x < 2 powi (e + 1)"
  shows "flog2 x = e"
proof -
  note b = flog2_bounds[OF assms(1)]
  have "(2::rat) powi e < 2 powi (flog2 x + 1)" using assms(2) b(2) by simp
  then have 1: "e < flog2 x + 1" by (simp only: pow2_less_iff)
  have "(2::rat) powi (flog2 x) < 2 powi (e + 1)" using assms(3) b(1) by simp
  then have 2: "flog2 x < e + 1" by (simp only: pow2_less_iff)
  from 1 2 show ?thesis by simp
qed


lemma flog2_mono:
  assumes "0 < x" "x \<le> y"
  shows "flog2 x \<le> flog2 y"
proof -
  have y: "0 < y" using assms by simp
  have "2 powi (flog2 x) \<le> x" using assms(1) by (rule flog2_bounds)
  also have "x \<le> y" by fact
  also have "y < 2 powi (flog2 y + 1)" using y by (rule flog2_bounds)
  finally have "flog2 x < flog2 y + 1" by (simp only: pow2_less_iff)
  then show ?thesis by simp
qed

lemma rne_of_int: "rne (of_int n) = n"
  by (simp add: rne_def)

lemma rne_err: "\<bar>of_int (rne q) - q\<bar> \<le> 1/2"
proof -
  have "of_int \<lfloor>q\<rfloor> \<le> q" "q < of_int \<lfloor>q\<rfloor> + 1" by linarith+
  then show ?thesis by (auto simp: rne_def Let_def)
qed

lemma rne_mono:
  assumes "q \<le> q'"
  shows "rne q \<le> rne q'"
proof -
  have fl: "\<lfloor>q\<rfloor> \<le> \<lfloor>q'\<rfloor>" using assms by (rule floor_mono)
  have b: "\<lfloor>q\<rfloor> \<le> rne q" "rne q \<le> \<lfloor>q\<rfloor> + 1" "\<lfloor>q'\<rfloor> \<le> rne q'"
    by (auto simp: rne_def Let_def)
  show ?thesis
  proof (cases "\<lfloor>q\<rfloor> < \<lfloor>q'\<rfloor>")
    case True
    with b show ?thesis by linarith
  next
    case False
    with fl have eq: "\<lfloor>q'\<rfloor> = \<lfloor>q\<rfloor>" by simp
    show ?thesis using assms by (auto simp: rne_def Let_def eq)
  qed
qed

lemma rne_minus: "rne (- q) = - rne q"
proof (cases "q = of_int \<lfloor>q\<rfloor>")
  case True
  then obtain n where "q = of_int n" ..
  then have "- q = of_int (- n)" by simp
  then show ?thesis using \<open>q = of_int n\<close> by (simp only: rne_of_int)
next
  case False
  then have c: "\<lceil>q\<rceil> = \<lfloor>q\<rfloor> + 1"
    by (metis ceiling_altdef)
  have f: "\<lfloor>- q\<rfloor> = - \<lfloor>q\<rfloor> - 1"
    using c by (simp add: ceiling_def)
  show ?thesis
    unfolding rne_def Let_def f by (auto simp: algebra_simps)
qed


lemma pow2_add: "(2::rat) powi (a + b) = 2 powi a * 2 powi b"
  by (simp add: power_int_add)

lemma div_cancel_aux: "0 < u \<Longrightarrow> x = c * u \<Longrightarrow> x / u = (c::rat)"
  by simp

lemma ulp_times: "of_int (2 ^ n) * ulp x = 2 powi (expo x - 52 + int n)"
  by (simp add: ulp_def pow2_add)

lemma ulp_pos: "0 < ulp x"
  by (simp add: ulp_def pow2_pos)

lemma ulp_minus: "ulp (- x) = ulp x"
  by (simp add: ulp_def expo_def)

lemma rval_minus: "rval (- x) = - rval x"
  by (simp add: rval_def ulp_minus rne_minus)

lemma rval_zero: "rval 0 = 0"
  by (simp add: rval_def rne_def)

lemma rval_nonneg:
  assumes "0 \<le> x"
  shows "0 \<le> rval x"
proof -
  have "0 \<le> x / ulp x" using assms ulp_pos[of x] by simp
  then have "rne 0 \<le> rne (x / ulp x)" by (rule rne_mono)
  then have "0 \<le> rne (x / ulp x)" using rne_of_int[of 0] by simp
  then show ?thesis using ulp_pos[of x] by (simp add: rval_def)
qed

lemma expo_flog2: "0 < x \<Longrightarrow> flog2 x \<le> expo x"
  by (simp add: expo_def)

lemma rval_exact_lt:
  assumes m: "\<bar>m\<bar> < 2 ^ 53" and e: "- 1074 \<le> e"
  shows "rval (of_int m * 2 powi e) = of_int m * 2 powi e"
proof (cases "m = 0")
  case True
  then show ?thesis by (simp add: rval_zero)
next
  case False
  define x :: rat where "x = of_int m * 2 powi e"
  have ax: "\<bar>x\<bar> = of_int \<bar>m\<bar> * 2 powi e"
    by (simp add: x_def abs_mult pow2_pos less_imp_le)
  have xpos: "0 < \<bar>x\<bar>" using False by (simp add: x_def)
  have "of_int \<bar>m\<bar> < (2::rat) ^ 53"
    using m by (metis of_int_less_iff of_int_numeral of_int_power)
  then have "\<bar>x\<bar> < 2 ^ 53 * 2 powi e"
    unfolding ax by (intro mult_strict_right_mono) (auto simp: pow2_pos)
  also have "(2::rat) ^ 53 * 2 powi e = 2 powi (53 + e)"
    by (simp add: power_int_add)
  finally have "\<bar>x\<bar> < 2 powi (53 + e)" .
  with flog2_bounds(1)[OF xpos] have "(2::rat) powi (flog2 \<bar>x\<bar>) < 2 powi (53 + e)" by simp
  then have "flog2 \<bar>x\<bar> < 53 + e" by (simp only: pow2_less_iff)
  then have t: "expo x - 52 \<le> e" using e by (simp add: expo_def)
  define k where "k = nat (e - (expo x - 52))"
  have ek: "e = (expo x - 52) + int k" using t by (simp add: k_def)
  have pe: "(2::rat) powi e = 2 powi (int k) * ulp x"
    unfolding ulp_def by (subst ek) (simp add: power_int_add)
  have xk: "x = of_int (m * 2 ^ k) * ulp x"
    using pe by (simp add: x_def)
  have "x / ulp x = of_int (m * 2 ^ k)"
    using ulp_pos xk by (rule div_cancel_aux)
  then have "rne (x / ulp x) = m * 2 ^ k" by (simp only: rne_of_int)
  then have "rval x = of_int (m * 2 ^ k) * ulp x" by (simp add: rval_def)
  then have "rval x = x" using xk by simp
  then show ?thesis by (simp add: x_def)
qed

lemma rval_exact:
  assumes m: "\<bar>m\<bar> \<le> 2 ^ 53" and e: "- 1074 \<le> e"
  shows "rval (of_int m * 2 powi e) = of_int m * 2 powi e"
proof (cases "\<bar>m\<bar> < 2 ^ 53")
  case True
  then show ?thesis using e by (rule rval_exact_lt)
next
  case False
  with m have "\<bar>m\<bar> = 2 ^ 53" by simp
  then have "m = 2 ^ 53 \<or> m = - (2 ^ 53)" by linarith
  then obtain s :: int where s: "\<bar>s\<bar> < 2 ^ 53" "m = s * 2 ^ 53"
  proof
    assume "m = 2 ^ 53" then show ?thesis using that[of 1] by simp
  next
    assume "m = - (2 ^ 53)" then show ?thesis using that[of "- 1"] by simp
  qed
  have "(of_int m :: rat) * 2 powi e = of_int s * 2 powi (e + 53)"
    by (simp add: s(2) power_int_add)
  moreover have "rval (of_int s * 2 powi (e + 53)) = of_int s * 2 powi (e + 53)"
    using s(1) e by (intro rval_exact_lt) auto
  ultimately show ?thesis by simp
qed

lemma rval_of_int:
  assumes "\<bar>m\<bar> \<le> 2 ^ 53"
  shows "rval (of_int m) = of_int m"
  using rval_exact[OF assms, of 0] by simp

lemma rval_mono_pos:
  assumes x: "0 < x" and xy: "x \<le> y"
  shows "rval x \<le> rval y"
proof -
  have y: "0 < y" using x xy by simp
  have fl: "flog2 x \<le> flog2 y" using x xy by (rule flog2_mono)
  have ee: "expo x \<le> expo y" using fl x y by (simp add: expo_def)
  show ?thesis
  proof (cases "expo x = expo y")
    case True
    then have u: "ulp y = ulp x" by (simp add: ulp_def)
    have "x / ulp x \<le> y / ulp x" using xy ulp_pos[of x] by (simp add: divide_right_mono)
    then have "rne (x / ulp x) \<le> rne (y / ulp x)" by (rule rne_mono)
    then show ?thesis using ulp_pos[of x] by (simp add: rval_def u)
  next
    case False
    with ee have lt: "expo x < expo y" by simp
    then have ey: "expo y = flog2 y" using y by (auto simp: expo_def max_def split: if_splits)
    have fx: "flog2 x \<le> expo x" using x by (simp add: expo_def)
    have "x < 2 powi (flog2 x + 1)" using x by (rule flog2_bounds)
    also have "\<dots> \<le> 2 powi (expo x + 1)" using fx by (simp add: pow2_le_iff)
    finally have xb: "x < 2 powi (expo x + 1)" .
    have "x / ulp x \<le> 2 powi (expo x + 1) / ulp x"
      using xb ulp_pos[of x] by (simp add: divide_right_mono)
    also have "2 powi (expo x + 1) / ulp x = (2::rat) powi 53"
      by (simp add: ulp_def flip: power_int_diff)
    also have "\<dots> = of_int (2 ^ 53)" by simp
    finally have "rne (x / ulp x) \<le> rne (of_int (2 ^ 53))" by (rule rne_mono)
    then have "rne (x / ulp x) \<le> 2 ^ 53" by (simp only: rne_of_int)
    then have "(of_int (rne (x / ulp x)) :: rat) \<le> of_int (2 ^ 53)" by (simp only: of_int_le_iff)
    then have "rval x \<le> of_int (2 ^ 53) * ulp x"
      unfolding rval_def using ulp_pos[of x] by (intro mult_right_mono) auto
    also have "of_int (2 ^ 53) * ulp x = 2 powi (expo x + 1)"
      using ulp_times[of 53 x] by (simp add: algebra_simps)
    also have "\<dots> \<le> 2 powi (expo y)" using lt by (simp add: pow2_le_iff)
    finally have A: "rval x \<le> 2 powi (expo y)" .
    have "2 powi (expo y) \<le> y" unfolding ey using y by (rule flog2_bounds)
    then have "2 powi (expo y) / ulp y \<le> y / ulp y"
      using ulp_pos[of y] by (simp add: divide_right_mono)
    moreover have "2 powi (expo y) / ulp y = (2::rat) powi 52"
      by (simp add: ulp_def flip: power_int_diff)
    moreover have "(2::rat) powi 52 = of_int (2 ^ 52)" by simp
    ultimately have "of_int (2 ^ 52) \<le> y / ulp y" by simp
    then have "rne (of_int (2 ^ 52)) \<le> rne (y / ulp y)" by (rule rne_mono)
    then have "2 ^ 52 \<le> rne (y / ulp y)" by (simp only: rne_of_int)
    then have "(of_int (2 ^ 52) :: rat) \<le> of_int (rne (y / ulp y))" by (simp only: of_int_le_iff)
    then have "of_int (2 ^ 52) * ulp y \<le> rval y"
      unfolding rval_def using ulp_pos[of y] by (intro mult_right_mono) auto
    moreover have "of_int (2 ^ 52) * ulp y = 2 powi (expo y)"
      using ulp_times[of 52 y] by (simp add: algebra_simps)
    ultimately have B: "2 powi (expo y) \<le> rval y" by simp
    from A B show ?thesis by simp
  qed
qed

lemma rval_mono:
  assumes "x \<le> y"
  shows "rval x \<le> rval y"
proof -
  consider "0 < x" | "x \<le> 0" "0 \<le> y" | "y < 0" using assms by linarith
  then show ?thesis
  proof cases
    case 1
    then show ?thesis using assms by (rule rval_mono_pos)
  next
    case 2
    have "0 \<le> rval (- x)" using 2(1) by (intro rval_nonneg) simp
    then have "rval x \<le> 0" by (simp add: rval_minus)
    moreover have "0 \<le> rval y" using 2(2) by (rule rval_nonneg)
    ultimately show ?thesis by simp
  next
    case 3
    then have "0 < - y" "- y \<le> - x" using assms by simp_all
    then have "rval (- y) \<le> rval (- x)" by (rule rval_mono_pos)
    then show ?thesis by (simp add: rval_minus)
  qed
qed

lemma rnd_exact:
  assumes "\<bar>m\<bar> \<le> 2 ^ 53" "- 1074 \<le> e" "\<bar>of_int m * 2 powi e\<bar> < (2::rat) ^ 1024"
  shows "rnd (of_int m * 2 powi e) = Fin (of_int m * 2 powi e)"
  using assms(3) by (simp add: rnd_def rval_exact[OF assms(1,2)] Let_def abs_less_iff not_le)

lemma rnd_int:
  assumes m: "\<bar>m\<bar> \<le> 2 ^ 53"
  shows "rnd (of_int m) = Fin (of_int m)"
proof -
  have "\<bar>of_int m :: rat\<bar> \<le> of_int (2 ^ 53)"
    using m by (simp only: of_int_abs[symmetric] of_int_le_iff)
  then have "\<bar>of_int m :: rat\<bar> < 2 ^ 1024" by simp
  then show ?thesis using rnd_exact[OF m, of 0] by simp
qed


section \<open>The backoff calculation\<close>

lemma computeBackoff_capped:
  "computeBackoff c w =
     (if f64_gt (JitterFactor (config c)) (Fin 0)
      then (f64_to_int64 (f64_mul (capped_backoff (config c) (sint (reconnectCount c)))
              (f64_add (Fin 1) (f64_mul (f64_sub (rng w (rng_pos w)) (Fin (1/2))) (JitterFactor (config c))))),
            w\<lparr>rng_pos := rng_pos w + 1\<rparr>)
      else (f64_to_int64 (capped_backoff (config c) (sint (reconnectCount c))), w))"
  by (simp add: computeBackoff_def capped_backoff_def Let_def rand_Float64_def)

lemma f64_to_int64_of_int:
  assumes "- (2 ^ 63) \<le> k" "k < 2 ^ 63"
  shows "f64_to_int64 (Fin (of_int k)) = Some k"
  using assms by simp

lemma capped_backoff_exact:
  assumes b: "0 \<le> b" "b \<le> m" and m: "m \<le> 2 ^ 53" and n: "0 \<le> n" and nz: "0 < b \<or> n < 1024"
  shows "capped_backoff \<lparr>URL = u, BaseDelay = b, MaxDelay = m, JitterFactor = j\<rparr> n
           = Fin (of_int (min (b * 2 ^ nat n) m))"
proof -
  have fb: "f64_of_int b = Fin (of_int b)"
    unfolding f64_of_int_def using b m by (intro rnd_int) simp
  have fm: "f64_of_int m = Fin (of_int m)"
    unfolding f64_of_int_def using b m by (intro rnd_int) simp
  have mlt: "(of_int m :: rat) < 2 ^ 1024"
  proof -
    have "(of_int m :: rat) \<le> of_int (2 ^ 53)" using m by (simp only: of_int_le_iff)
    then show ?thesis by simp
  qed
  show ?thesis
  proof (cases "1024 \<le> n")
    case True
    with nz have bp: "0 < b" by simp
    have "(2::int) ^ 1024 \<le> 2 ^ nat n" using True by (intro power_increasing) auto
    then have "(2::int) ^ 1024 \<le> b * 2 ^ nat n" using bp
      by (smt (verit) mult_le_cancel_right1 zero_less_power)
    then have "min (b * 2 ^ nat n) m = m" using m by simp
    then show ?thesis using True bp by (simp add: capped_backoff_def fb fm f64_pow2_def)
  next
    case False
    then have p2: "f64_pow2 n = Fin (2 powi n)" using n by (simp add: f64_pow2_def)
    have pn: "(2::rat) powi n = 2 ^ nat n" using n by (simp add: power_int_nonneg_exp)
    have "rval (of_int b * 2 powi n) = of_int b * 2 powi n"
      using b m n by (intro rval_exact) auto
    then have rv: "rval (of_int b * 2 ^ nat n) = of_int b * 2 ^ nat n"
      by (simp only: pn)
    have nn: "(0::rat) \<le> of_int b * 2 ^ nat n" using b by simp
    have eq: "(of_int b :: rat) * 2 ^ nat n = of_int (b * 2 ^ nat n)" by simp
    show ?thesis
    proof (cases "(2::rat) ^ 1024 \<le> of_int b * 2 ^ nat n")
      case True
      then have "f64_mul (f64_of_int b) (f64_pow2 n) = PInf"
        by (simp add: fb p2 rnd_def rv pn Let_def)
      moreover have "m < b * 2 ^ nat n"
      proof -
        have "(of_int m :: rat) < of_int (b * 2 ^ nat n)" using True mlt by (simp only: eq[symmetric])
        then show ?thesis by (simp only: of_int_less_iff)
      qed
      ultimately show ?thesis by (simp add: capped_backoff_def fm)
    next
      case F: False
      then have mu: "f64_mul (f64_of_int b) (f64_pow2 n) = Fin (of_int (b * 2 ^ nat n))"
        using nn by (simp add: fb p2 rnd_def rv pn Let_def)
      have gt: "f64_gt (Fin (of_int (b * 2 ^ nat n))) (Fin (of_int m)) \<longleftrightarrow> m < b * 2 ^ nat n"
        by (simp only: f64_gt.simps of_int_less_iff)
      have "capped_backoff \<lparr>URL = u, BaseDelay = b, MaxDelay = m, JitterFactor = j\<rparr> n
              = (if m < b * 2 ^ nat n then Fin (of_int m) else Fin (of_int (b * 2 ^ nat n)))"
        unfolding capped_backoff_def Let_def Config.simps mu fm gt ..
      then show ?thesis by (simp add: min_def)
    qed
  qed
qed


lemma computeBackoff_no_jitter:
  fixes c :: "'h Client"
  assumes j: "JitterFactor (config c) = Fin 0"
    and b: "0 < BaseDelay (config c)" "BaseDelay (config c) \<le> MaxDelay (config c)"
    and m: "MaxDelay (config c) \<le> 2 ^ 53"
    and n: "0 \<le> sint (reconnectCount c)"
  shows "computeBackoff c w =
           (Some (min (BaseDelay (config c) * 2 ^ nat (sint (reconnectCount c))) (MaxDelay (config c))), w)"
proof -
  let ?k = "min (BaseDelay (config c) * 2 ^ nat (sint (reconnectCount c))) (MaxDelay (config c))"
  have cfg: "config c = \<lparr>URL = URL (config c), BaseDelay = BaseDelay (config c),
                           MaxDelay = MaxDelay (config c), JitterFactor = JitterFactor (config c)\<rparr>"
    by simp
  have cap: "capped_backoff (config c) (sint (reconnectCount c)) = Fin (of_int ?k)"
    by (subst cfg, rule capped_backoff_exact) (use b m n in auto)
  have "0 \<le> ?k" using b by simp
  moreover have "?k \<le> 2 ^ 53" using m by simp
  ultimately have "f64_to_int64 (Fin (of_int ?k)) = Some ?k"
    by (intro f64_to_int64_of_int) auto
  then show ?thesis by (simp add: computeBackoff_capped j cap)
qed


lemma rnd_fin: "\<bar>rval x\<bar> < 2 ^ 1024 \<Longrightarrow> rnd x = Fin (rval x)"
  by (auto simp: rnd_def Let_def abs_less_iff)

lemma rval_half: "rval (1/2) = 1/2" "rval (- (1/2)) = - (1/2)"
  using rval_exact[of 1 "- 1"] rval_exact[of "- 1" "- 1"] by simp_all

lemma rval_three_halves: "rval (3/2) = 3/2"
  using rval_exact[of 3 "- 1"] by simp

lemma rval_one: "rval 1 = 1"
  using rval_exact[of 1 0] by simp

lemma rval_pow2_54: "rval (2 ^ 54) = 2 ^ 54"
  using rval_exact[of 1 54] by simp

lemma rval_between:
  assumes "rval a = a" "rval b = b" "a \<le> x" "x \<le> b"
  shows "a \<le> rval x" "rval x \<le> b"
  using rval_mono[OF assms(3)] rval_mono[OF assms(4)] assms(1,2) by simp_all

lemma jitter_term:
  assumes x: "- (1/2) \<le> x" "x \<le> 1/2" and f: "0 < f" "f \<le> 1"
  shows "- (1/2) \<le> rval (x * f)" "rval (x * f) \<le> 1/2"
proof -
  have "\<bar>x * f\<bar> \<le> 1/2 * 1"
    unfolding abs_mult using x f by (intro mult_mono) auto
  then have "- (1/2) \<le> x * f" "x * f \<le> 1/2" by (auto simp: abs_le_iff)
  then show "- (1/2) \<le> rval (x * f)" "rval (x * f) \<le> 1/2"
    using rval_between[OF rval_half(2) rval_half(1)] by blast+
qed

lemma jitter_factor:
  assumes x: "- (1/2) \<le> x" "x \<le> 1/2" and f: "0 < f" "f \<le> 1"
  shows "1/2 \<le> rval (1 + rval (x * f))" "rval (1 + rval (x * f)) \<le> 3/2"
proof -
  note t = jitter_term[OF assms]
  have "1/2 \<le> 1 + rval (x * f)" "1 + rval (x * f) \<le> 3/2" using t by auto
  then show "1/2 \<le> rval (1 + rval (x * f))" "rval (1 + rval (x * f)) \<le> 3/2"
    using rval_between[OF rval_half(1) rval_three_halves] by blast+
qed

lemma scale_range:
  assumes y: "0 \<le> y" "y \<le> 2 ^ 53" and x: "- (1/2) \<le> x" "x \<le> 1/2" and f: "0 < f" "f \<le> 1"
  shows "0 \<le> scale y f x" "scale y f x \<le> 2 ^ 54"
proof -
  note s = jitter_factor[OF x f]
  have "0 \<le> y * rval (1 + rval (x * f))" using y s by simp
  then show "0 \<le> scale y f x" unfolding scale_def by (rule rval_nonneg)
  have "y * rval (1 + rval (x * f)) \<le> 2 ^ 53 * (3/2)"
    using y s by (intro mult_mono) auto
  also have "\<dots> \<le> (2::rat) ^ 54" by simp
  finally have "rval (y * rval (1 + rval (x * f))) \<le> rval (2 ^ 54)" by (rule rval_mono)
  then show "scale y f x \<le> 2 ^ 54" using rval_pow2_54 by (simp add: scale_def)
qed

lemma scale_mono:
  assumes y: "0 \<le> y" "y \<le> y'" and x: "- (1/2) \<le> x" "x \<le> x'" "x' \<le> 1/2" and f: "0 < f" "f \<le> 1"
  shows "scale y f x \<le> scale y' f x'"
proof -
  have "x * f \<le> x' * f" using x f by simp
  then have "rval (x * f) \<le> rval (x' * f)" by (rule rval_mono)
  then have "1 + rval (x * f) \<le> 1 + rval (x' * f)" by simp
  then have m: "rval (1 + rval (x * f)) \<le> rval (1 + rval (x' * f))" by (rule rval_mono)
  have "0 \<le> rval (1 + rval (x * f))"
    using jitter_factor(1)[of x f] x f by simp
  then have "y * rval (1 + rval (x * f)) \<le> y' * rval (1 + rval (x' * f))"
    using y m by (intro mult_mono) auto
  then show ?thesis unfolding scale_def by (rule rval_mono)
qed

lemma jitter_scaled_eval:
  assumes y: "0 \<le> y" "y \<le> 2 ^ 53" and x: "- (1/2) \<le> x" "x \<le> 1/2" and f: "0 < f" "f \<le> 1"
  shows "jitter_scaled (Fin y) (Fin f) (Fin x) = Some \<lfloor>scale y f x\<rfloor>"
proof -
  note t = jitter_term[OF x f] and s = jitter_factor[OF x f] and p = scale_range[OF y x f]
  have 1: "rnd (x * f) = Fin (rval (x * f))"
    using t by (intro rnd_fin) (auto simp: abs_less_iff)
  have 2: "rnd (1 + rval (x * f)) = Fin (rval (1 + rval (x * f)))"
    using s by (intro rnd_fin) (auto simp: abs_less_iff)
  have 3: "rnd (y * rval (1 + rval (x * f))) = Fin (scale y f x)"
    unfolding scale_def using p by (intro rnd_fin) (auto simp: abs_less_iff scale_def)
  have "\<lfloor>scale y f x\<rfloor> \<le> \<lfloor>(2::rat) ^ 54\<rfloor>" using p(2) by (rule floor_mono)
  then have 4: "\<lfloor>scale y f x\<rfloor> < 2 ^ 63" by simp
  have 5: "0 \<le> \<lfloor>scale y f x\<rfloor>" using p(1) by simp
  show ?thesis
    using 4 5 p(1) by (simp add: jitter_scaled_def 1 2 3)
qed

lemma rval_err: "\<bar>rval x - x\<bar> \<le> ulp x / 2"
proof -
  have "rval x - x = (of_int (rne (x / ulp x)) - x / ulp x) * ulp x"
    using ulp_pos[of x] by (simp add: rval_def algebra_simps)
  then have "\<bar>rval x - x\<bar> = \<bar>of_int (rne (x / ulp x)) - x / ulp x\<bar> * ulp x"
    using ulp_pos[of x] by (simp add: abs_mult)
  also have "\<dots> \<le> (1/2) * ulp x"
    using rne_err[of "x / ulp x"] ulp_pos[of x] by (intro mult_right_mono) auto
  finally show ?thesis by simp
qed

lemma flog2_le:
  assumes "0 < x" "x \<le> 2 powi k"
  shows "flog2 x \<le> k"
proof -
  have "(2::rat) powi (flog2 x) \<le> 2 powi k"
    using flog2_bounds(1)[OF assms(1)] assms(2) by simp
  then show ?thesis by (simp only: pow2_le_iff)
qed

lemma rval_abs_err:
  assumes "\<bar>x\<bar> \<le> 2 powi k" "- 1022 \<le> k"
  shows "\<bar>rval x - x\<bar> \<le> 2 powi (k - 53)"
proof (cases "x = 0")
  case True
  then show ?thesis by (simp add: rval_zero pow2_pos less_imp_le)
next
  case False
  then have "0 < \<bar>x\<bar>" by simp
  then have "flog2 \<bar>x\<bar> \<le> k" using assms(1) by (rule flog2_le)
  then have "expo x \<le> k" using assms(2) by (simp add: expo_def)
  then have "ulp x \<le> 2 powi (k - 52)" by (simp add: ulp_def pow2_le_iff)
  also have "(2::rat) powi (k - 52) = 2 powi (k - 53) * 2"
    using pow2_add[of "k - 53" 1] by simp
  finally have "ulp x / 2 \<le> 2 powi (k - 53)" by simp
  with rval_err[of x] show ?thesis by simp
qed

lemma rval_rel_err:
  assumes "1/2 \<le> x"
  shows "\<bar>rval x - x\<bar> \<le> x / 2 ^ 53"
proof -
  have x: "0 < x" using assms by simp
  have "(2::rat) powi (- 1) \<le> x" using assms by (simp add: power_int_minus)
  also have "x < 2 powi (flog2 x + 1)" using x by (rule flog2_bounds)
  finally have "- 1 < flog2 x + 1" by (simp only: pow2_less_iff)
  then have "expo x = flog2 x" using x by (simp add: expo_def)
  then have "ulp x = 2 powi (flog2 x) * 2 powi (- 52)"
    using pow2_add[of "flog2 x" "- 52"] by (simp add: ulp_def)
  also have "\<dots> \<le> x * 2 powi (- 52)"
    using flog2_bounds(1)[OF x] by (intro mult_right_mono) (auto simp: pow2_pos less_imp_le)
  finally have "ulp x / 2 \<le> x * 2 powi (- 52) / 2" by simp
  also have "\<dots> = x / 2 ^ 53" by (simp add: power_int_minus field_simps)
  finally show ?thesis using rval_err[of x] by simp
qed

lemma abs_diff_leD:
  assumes "\<bar>a - b\<bar> \<le> (c::rat)"
  shows "a \<le> b + c" "b - c \<le> a"
  using assms by (auto simp: abs_le_iff)

lemma add_mult_eps: "a + a * e = a * (1 + (e::rat))"
  by (simp add: algebra_simps)

lemma sub_mult_eps: "a - a * e = a * (1 - (e::rat))"
  by (simp add: algebra_simps)

lemma factor_hi:
  assumes f: "0 < f" "f \<le> 1"
  shows "rval (1 + rval (1/2 * f)) \<le> (1 + f/2) * (1 + 1 / 2 ^ 51)"
proof -
  have "\<bar>1/2 * f\<bar> \<le> 2 powi (- 1)" using f by (simp add: power_int_minus)
  then have "\<bar>rval (1/2 * f) - 1/2 * f\<bar> \<le> 2 powi (- 1 - 53)" by (rule rval_abs_err) simp
  then have "\<bar>rval (1/2 * f) - 1/2 * f\<bar> \<le> 1 / 2 ^ 54" by (simp add: power_int_minus_divide)
  from abs_diff_leD(1)[OF this] have a: "rval (1/2 * f) \<le> f/2 + 1 / 2 ^ 54" by simp
  have j: "- (1/2) \<le> rval (1/2 * f)" "rval (1/2 * f) \<le> 1/2"
    using jitter_term[of "1/2" f] f by simp_all
  then have "\<bar>1 + rval (1/2 * f)\<bar> \<le> 2 powi 1" by (simp add: abs_le_iff)
  then have "\<bar>rval (1 + rval (1/2 * f)) - (1 + rval (1/2 * f))\<bar> \<le> 2 powi (1 - 53)"
    by (rule rval_abs_err) simp
  then have "\<bar>rval (1 + rval (1/2 * f)) - (1 + rval (1/2 * f))\<bar> \<le> 1 / 2 ^ 52"
    by (simp add: power_int_minus_divide)
  from abs_diff_leD(1)[OF this] have "rval (1 + rval (1/2 * f)) \<le> 1 + rval (1/2 * f) + 1 / 2 ^ 52"
    by simp
  also have "\<dots> \<le> 1 + (f/2 + 1 / 2 ^ 54) + 1 / 2 ^ 52" using a by simp
  also have "\<dots> \<le> (1 + f/2) + 1 * (1 / 2 ^ 51)" by simp
  also have "\<dots> \<le> (1 + f/2) + (1 + f/2) * (1 / 2 ^ 51)"
    using f by (intro add_left_mono mult_right_mono) auto
  also have "\<dots> = (1 + f/2) * (1 + 1 / 2 ^ 51)" by (rule add_mult_eps)
  finally show ?thesis .
qed

lemma factor_lo:
  assumes f: "0 < f" "f \<le> 1"
  shows "(1 - f/2) * (1 - 1 / 2 ^ 50) \<le> rval (1 + rval (- (1/2) * f))"
proof -
  have "\<bar>- (1/2) * f\<bar> \<le> 2 powi (- 1)" using f by (simp add: power_int_minus)
  then have "\<bar>rval (- (1/2) * f) - (- (1/2) * f)\<bar> \<le> 2 powi (- 1 - 53)" by (rule rval_abs_err) simp
  then have "\<bar>rval (- (1/2) * f) - (- (1/2) * f)\<bar> \<le> 1 / 2 ^ 54" by (simp add: power_int_minus_divide)
  from abs_diff_leD(2)[OF this] have a: "- (f/2) - 1 / 2 ^ 54 \<le> rval (- (1/2) * f)" by simp
  have j: "- (1/2) \<le> rval (- (1/2) * f)" "rval (- (1/2) * f) \<le> 1/2"
    using jitter_term[of "- (1/2)" f] f by simp_all
  then have "\<bar>1 + rval (- (1/2) * f)\<bar> \<le> 2 powi 1" by (simp add: abs_le_iff)
  then have "\<bar>rval (1 + rval (- (1/2) * f)) - (1 + rval (- (1/2) * f))\<bar> \<le> 2 powi (1 - 53)"
    by (rule rval_abs_err) simp
  then have "\<bar>rval (1 + rval (- (1/2) * f)) - (1 + rval (- (1/2) * f))\<bar> \<le> 1 / 2 ^ 52"
    by (simp add: power_int_minus_divide)
  from abs_diff_leD(2)[OF this] have b: "1 + rval (- (1/2) * f) - 1 / 2 ^ 52 \<le> rval (1 + rval (- (1/2) * f))"
    by simp
  have "(1 - f/2) * (1 - 1 / 2 ^ 50) = (1 - f/2) - (1 - f/2) * (1 / 2 ^ 50)"
    by (rule sub_mult_eps[symmetric])
  also have "\<dots> \<le> (1 - f/2) - (1/2) * (1 / 2 ^ 50)"
    using f by (intro diff_left_mono mult_right_mono) auto
  also have "\<dots> \<le> 1 + (- (f/2) - 1 / 2 ^ 54) - 1 / 2 ^ 52" by simp
  also have "\<dots> \<le> 1 + rval (- (1/2) * f) - 1 / 2 ^ 52" using a by simp
  also have "\<dots> \<le> rval (1 + rval (- (1/2) * f))" by (rule b)
  finally show ?thesis .
qed

lemma scale_hi:
  assumes y: "y = 0 \<or> 1 \<le> y" and f: "0 < f" "f \<le> 1"
  shows "scale y f (1/2) \<le> y * (1 + f/2) * (1 + 1 / 2 ^ 49)"
proof (cases "y = 0")
  case True
  then show ?thesis by (simp add: scale_def rval_zero)
next
  case False
  with y have y1: "1 \<le> y" by simp
  let ?s = "rval (1 + rval (1/2 * f))"
  have s: "1/2 \<le> ?s" using jitter_factor(1)[of "1/2" f] f by simp
  have "1 * (1/2) \<le> y * ?s" using y1 s by (intro mult_mono) auto
  then have h: "1/2 \<le> y * ?s" by simp
  then have "\<bar>rval (y * ?s) - y * ?s\<bar> \<le> y * ?s / 2 ^ 53" by (rule rval_rel_err)
  from abs_diff_leD(1)[OF this] have "rval (y * ?s) \<le> y * ?s + y * ?s / 2 ^ 53" .
  also have "\<dots> = y * (?s * (1 + 1 / 2 ^ 53))" by (simp add: algebra_simps)
  also have "?s * (1 + 1 / 2 ^ 53) \<le> ((1 + f/2) * (1 + 1 / 2 ^ 51)) * (1 + 1 / 2 ^ 53)"
    using factor_hi[OF f] by (intro mult_right_mono) auto
  then have "y * (?s * (1 + 1 / 2 ^ 53)) \<le> y * (((1 + f/2) * (1 + 1 / 2 ^ 51)) * (1 + 1 / 2 ^ 53))"
    using y1 by (intro mult_left_mono) auto
  also have "\<dots> = (y * (1 + f/2)) * ((1 + 1 / 2 ^ 51) * (1 + 1 / 2 ^ 53))" by (simp add: algebra_simps)
  also have "\<dots> \<le> (y * (1 + f/2)) * (1 + 1 / 2 ^ 49)"
    using y1 f by (intro mult_left_mono) auto
  finally show ?thesis by (simp add: scale_def)
qed

lemma scale_lo:
  assumes y: "y = 0 \<or> 1 \<le> y" and f: "0 < f" "f \<le> 1"
  shows "y * (1 - f/2) * (1 - 1 / 2 ^ 49) \<le> scale y f (- (1/2))"
proof (cases "y = 0")
  case True
  then show ?thesis by (simp add: scale_def rval_zero)
next
  case False
  with y have y1: "1 \<le> y" by simp
  let ?s = "rval (1 + rval (- (1/2) * f))"
  have s: "1/2 \<le> ?s" using jitter_factor(1)[of "- (1/2)" f] f by simp
  have "1 * (1/2) \<le> y * ?s" using y1 s by (intro mult_mono) auto
  then have h: "1/2 \<le> y * ?s" by simp
  then have "\<bar>rval (y * ?s) - y * ?s\<bar> \<le> y * ?s / 2 ^ 53" by (rule rval_rel_err)
  from abs_diff_leD(2)[OF this] have r: "y * ?s - y * ?s / 2 ^ 53 \<le> rval (y * ?s)" .
  have "(y * (1 - f/2)) * (1 - 1 / 2 ^ 49) \<le> (y * (1 - f/2)) * ((1 - 1 / 2 ^ 50) * (1 - 1 / 2 ^ 53))"
    using y1 f by (intro mult_left_mono) auto
  also have "\<dots> = y * (((1 - f/2) * (1 - 1 / 2 ^ 50)) * (1 - 1 / 2 ^ 53))" by (simp add: algebra_simps)
  also have "((1 - f/2) * (1 - 1 / 2 ^ 50)) * (1 - 1 / 2 ^ 53) \<le> ?s * (1 - 1 / 2 ^ 53)"
    using factor_lo[OF f] by (intro mult_right_mono) auto
  then have "y * (((1 - f/2) * (1 - 1 / 2 ^ 50)) * (1 - 1 / 2 ^ 53)) \<le> y * (?s * (1 - 1 / 2 ^ 53))"
    using y1 by (intro mult_left_mono) auto
  also have "\<dots> = y * ?s - y * ?s / 2 ^ 53" by (simp add: algebra_simps)
  also have "\<dots> \<le> rval (y * ?s)" by (rule r)
  finally show ?thesis by (simp add: scale_def)
qed

lemma capped_backoff_exact':
  assumes "0 \<le> BaseDelay cfg" "BaseDelay cfg \<le> MaxDelay cfg" "MaxDelay cfg \<le> 2 ^ 53" "0 \<le> n"
    "0 < BaseDelay cfg \<or> n < 1024"
  shows "capped_backoff cfg n = Fin (of_int (min (BaseDelay cfg * 2 ^ nat n) (MaxDelay cfg)))"
proof -
  have "cfg = \<lparr>URL = URL cfg, BaseDelay = BaseDelay cfg, MaxDelay = MaxDelay cfg,
                JitterFactor = JitterFactor cfg\<rparr>" by simp
  then show ?thesis using capped_backoff_exact[OF assms] by metis
qed

lemma rnd_cases:
  assumes "0 \<le> x"
  shows "rnd x = PInf \<or> (\<exists>z. rnd x = Fin z \<and> 0 \<le> z)"
  using rval_nonneg[OF assms] by (auto simp: rnd_def Let_def)

lemma capped_backoff_range:
  assumes b: "0 < BaseDelay cfg" "BaseDelay cfg < 2 ^ 63" and m: "0 \<le> MaxDelay cfg" "MaxDelay cfg \<le> 2 ^ 53"
  shows "\<exists>y. capped_backoff cfg n = Fin y \<and> 0 \<le> y \<and> y \<le> of_int (MaxDelay cfg)"
proof -
  let ?b = "BaseDelay cfg" and ?m = "MaxDelay cfg"
  have fm: "f64_of_int ?m = Fin (of_int ?m)"
    unfolding f64_of_int_def using m by (intro rnd_int) simp
  have "(1::rat) \<le> of_int ?b" using b by simp
  then have "rval 1 \<le> rval (of_int ?b)" by (rule rval_mono)
  then have lo: "1 \<le> rval (of_int ?b)" by (simp add: rval_one)
  have "(of_int ?b :: rat) \<le> of_int (2 ^ 63)" using b by (simp only: of_int_le_iff)
  then have "rval (of_int ?b) \<le> rval (of_int (2 ^ 63))" by (rule rval_mono)
  moreover have "rval (of_int (2 ^ 63)) = 2 ^ 63" using rval_exact[of 1 63] by simp
  ultimately have hi: "rval (of_int ?b) \<le> 2 ^ 63" by simp
  define \<beta> where "\<beta> = rval (of_int ?b)"
  have fb: "f64_of_int ?b = Fin \<beta>"
    unfolding f64_of_int_def \<beta>_def using lo hi by (intro rnd_fin) (auto simp: abs_less_iff)
  have \<beta>: "0 < \<beta>" using lo by (simp add: \<beta>_def)
  have mm: "m0 \<le> (of_int ?m :: rat) \<Longrightarrow> 0 \<le> (of_int ?m :: rat)" for m0 using m by simp
  have mpos: "(0::rat) \<le> of_int ?m" using m by simp
  consider "1024 \<le> n" | "n < - 1074" | "- 1074 \<le> n" "n < 1024" by linarith
  then show ?thesis
  proof cases
    case 1
    then have "capped_backoff cfg n = Fin (of_int ?m)"
      using \<beta> by (simp add: capped_backoff_def fb fm f64_pow2_def)
    then show ?thesis using mpos by simp
  next
    case 2
    have "rnd 0 = Fin 0" using rnd_int[of 0] by simp
    then have "capped_backoff cfg n = Fin 0"
      using 2 mpos by (simp add: capped_backoff_def fb fm f64_pow2_def)
    then show ?thesis using mpos by simp
  next
    case 3
    then have p: "f64_pow2 n = Fin (2 powi n)" by (simp add: f64_pow2_def)
    have "0 \<le> \<beta> * 2 powi n" using \<beta> by (simp add: pow2_pos less_imp_le)
    from rnd_cases[OF this] show ?thesis
    proof
      assume "rnd (\<beta> * 2 powi n) = PInf"
      then have "capped_backoff cfg n = Fin (of_int ?m)"
        by (simp add: capped_backoff_def fb fm p)
      then show ?thesis using mpos by simp
    next
      assume "\<exists>z. rnd (\<beta> * 2 powi n) = Fin z \<and> 0 \<le> z"
      then obtain z where z: "rnd (\<beta> * 2 powi n) = Fin z" "0 \<le> z" by blast
      then have "capped_backoff cfg n = (if of_int ?m < z then Fin (of_int ?m) else Fin z)"
        by (simp add: capped_backoff_def fb fm p)
      then show ?thesis using z(2) mpos by (cases "of_int ?m < z") auto
    qed
  qed
qed

lemma computeBackoff_jitter:
  assumes raw: "capped_backoff (config c) (sint (reconnectCount c)) = Fin y" "0 \<le> y" "y \<le> 2 ^ 53"
    and jf: "JitterFactor (config c) = Fin f" "0 < f" "f \<le> 1"
    and r: "rng w (rng_pos w) = Fin \<rho>" "0 \<le> \<rho>" "\<rho> < 1"
  shows "computeBackoff c w = (Some \<lfloor>scale y f (rval (\<rho> - 1/2))\<rfloor>, w\<lparr>rng_pos := rng_pos w + 1\<rparr>)"
    and "- (1/2) \<le> rval (\<rho> - 1/2)" and "rval (\<rho> - 1/2) \<le> 1/2"
proof -
  have "- (1/2) \<le> \<rho> - 1/2" "\<rho> - 1/2 \<le> 1/2" using r by simp_all
  then show t: "- (1/2) \<le> rval (\<rho> - 1/2)" "rval (\<rho> - 1/2) \<le> 1/2"
    using rval_between[OF rval_half(2) rval_half(1)] by blast+
  then have s: "f64_sub (Fin \<rho>) (Fin (1/2)) = Fin (rval (\<rho> - 1/2))"
    unfolding f64_sub_def f64_neg.simps f64_add.simps
    using rnd_fin[of "\<rho> + - (1/2)"] by (simp add: abs_less_iff)
  have "f64_to_int64 (f64_mul (Fin y) (f64_add (Fin 1) (f64_mul (Fin (rval (\<rho> - 1/2))) (Fin f))))
          = Some \<lfloor>scale y f (rval (\<rho> - 1/2))\<rfloor>"
    using jitter_scaled_eval[OF raw(2,3) t jf(2,3)] by (simp add: jitter_scaled_def)
  then show "computeBackoff c w = (Some \<lfloor>scale y f (rval (\<rho> - 1/2))\<rfloor>, w\<lparr>rng_pos := rng_pos w + 1\<rparr>)"
    using jf(2) by (simp add: computeBackoff_capped jf(1) raw(1) r(1) s)
qed

section \<open>Claims about the backoff calculation\<close>

lemma rnd_2p53_plus_1: "rnd 9007199254740993 = Fin 9007199254740992"
proof -
  have "flog2 9007199254740993 = 53"
    by (rule flog2_unique) simp_all
  then have u: "ulp 9007199254740993 = 2"
    by (simp add: ulp_def expo_def)
  have fl: "\<lfloor>9007199254740993 / 2 :: rat\<rfloor> = 4503599627370496"
    by (rule floor_unique) simp_all
  have "rne (9007199254740993 / 2) = 4503599627370496"
    by (simp add: rne_def Let_def fl)
  then have "rval 9007199254740993 = 9007199254740992"
    by (simp add: rval_def u)
  then show ?thesis
    by (simp add: rnd_def Let_def)
qed

lemma scenario_A:
  "waits (snd (snd (Run
      (fresh_client \<lparr>URL = ''wss://jetstream'', BaseDelay = 100000000, MaxDelay = 1600000000,
                      JitterFactor = Fin 0\<rparr>)
      (world_of (Fin 0)
         [EvDial (Inl (Error ''refused'')), EvTimer, EvDial (Inl (Error ''refused'')), EvTimer,
          EvDial (Inl (Error ''refused'')), EvTimer, EvDial (Inl (Error ''refused'')), EvTimer]))))
   = [Some 100000000, Some 200000000, Some 400000000, Some 800000000]"
  by (simp add: fresh_client_def world_of_def Run.simps Run_step_def connect_def deliver_cancel_def
        log_append_def Let_def computeBackoff_no_jitter)

lemma example_capped:
  assumes "0 < b" "b \<le> 2 ^ 53"
  shows "capped_backoff \<lparr>URL = u, BaseDelay = b, MaxDelay = b, JitterFactor = j\<rparr> (sint (0 :: 64 word))
           = Fin (of_int b)"
  using capped_backoff_exact[of b b 0 u j] assms by simp

text \<open>
  Claim C1 (as amended). With jitter disabled, for every base delay and maximum delay with
  \<open>0 < base \<le> max \<le> 2 ^ 53\<close> nanoseconds (the range in which a float64 holds every
  count of nanoseconds exactly) and every attempt count \<open>n \<ge> 0\<close>, \<^verbatim>\<open>computeBackoff\<close> returns
  exactly \<open>min (base \<times> 2 ^ n) max\<close> and draws no random number; attempt count 0 gives
  \<open>base\<close>; the delays do not decrease as the attempt count grows; and with base 100 ms and
  maximum 1600 ms four dial failures in a row wait for 100, 200, 400 and 800 ms in that
  order.
\<close>

theorem backoff_doubles_to_cap:
  fixes c :: "'h Client"
  assumes "JitterFactor (config c) = Fin 0"
    and "0 < BaseDelay (config c)" and "BaseDelay (config c) \<le> MaxDelay (config c)"
    and "MaxDelay (config c) \<le> 2 ^ 53"
  shows "(\<forall>n w. 0 \<le> sint n \<longrightarrow>
            computeBackoff (c\<lparr>reconnectCount := n\<rparr>) w
              = (Some (min (BaseDelay (config c) * 2 ^ nat (sint n)) (MaxDelay (config c))), w))
       \<and> (\<forall>w. computeBackoff (c\<lparr>reconnectCount := 0\<rparr>) w = (Some (BaseDelay (config c)), w))
       \<and> (\<forall>m n w. 0 \<le> sint m \<and> sint m \<le> sint n \<longrightarrow>
            (\<exists>d e. computeBackoff (c\<lparr>reconnectCount := m\<rparr>) w = (Some d, w)
                 \<and> computeBackoff (c\<lparr>reconnectCount := n\<rparr>) w = (Some e, w) \<and> d \<le> e))
       \<and> waits (snd (snd (Run
            (fresh_client \<lparr>URL = ''wss://jetstream'', BaseDelay = 100000000, MaxDelay = 1600000000,
                            JitterFactor = Fin 0\<rparr>)
            (world_of (Fin 0)
               [EvDial (Inl (Error ''refused'')), EvTimer, EvDial (Inl (Error ''refused'')), EvTimer,
                EvDial (Inl (Error ''refused'')), EvTimer, EvDial (Inl (Error ''refused'')), EvTimer]))))
          = [Some 100000000, Some 200000000, Some 400000000, Some 800000000]"
proof -
  have formula: "computeBackoff (c\<lparr>reconnectCount := n\<rparr>) w
              = (Some (min (BaseDelay (config c) * 2 ^ nat (sint n)) (MaxDelay (config c))), w)"
    if "0 \<le> sint n" for n and w :: "'h world"
    using computeBackoff_no_jitter[of "c\<lparr>reconnectCount := n\<rparr>" w] assms that by simp
  have zero: "computeBackoff (c\<lparr>reconnectCount := 0\<rparr>) w = (Some (BaseDelay (config c)), w)"
    for w :: "'h world"
    using formula[of 0 w] assms(3) by simp
  have mono: "min (BaseDelay (config c) * 2 ^ nat (sint m)) (MaxDelay (config c))
                \<le> min (BaseDelay (config c) * 2 ^ nat (sint n)) (MaxDelay (config c))"
    if "0 \<le> sint m" "sint m \<le> sint n" for m n :: "64 word"
  proof -
    have "(2::int) ^ nat (sint m) \<le> 2 ^ nat (sint n)"
      using that by (intro power_increasing) auto
    then have "BaseDelay (config c) * 2 ^ nat (sint m) \<le> BaseDelay (config c) * 2 ^ nat (sint n)"
      using assms(2) by (intro mult_left_mono) auto
    then show ?thesis by (simp add: min_def)
  qed
  show ?thesis
    using formula zero mono scenario_A by (intro conjI allI impI) (auto intro: order_trans)
qed

theorem backoff_doubles_to_cap_witness:
  "JitterFactor \<lparr>URL = ''wss://jetstream'', BaseDelay = 100000000, MaxDelay = 1600000000,
                 JitterFactor = Fin 0\<rparr> = Fin 0
   \<and> (0::int) < 100000000 \<and> (100000000::int) \<le> 1600000000 \<and> (1600000000::int) \<le> 2 ^ 53
   \<and> 0 \<le> sint (5 :: 64 word)
   \<and> computeBackoff
        ((fresh_client \<lparr>URL = ''wss://jetstream'', BaseDelay = 100000000, MaxDelay = 1600000000,
                         JitterFactor = Fin 0\<rparr>)\<lparr>reconnectCount := 5\<rparr>)
        (world_of (Fin 0) [])
      = (Some 1600000000, world_of (Fin 0) [])"
  using backoff_doubles_to_cap[of
      "fresh_client \<lparr>URL = ''wss://jetstream'', BaseDelay = 100000000, MaxDelay = 1600000000,
                      JitterFactor = Fin 0\<rparr>"]
  by (simp add: fresh_client_def)

text \<open>
  Claim C1 as stated fails beyond that range: with base = max = \<open>2 ^ 53 + 1\<close> ns (a valid
  configuration) and attempt count 0, \<^verbatim>\<open>float64(BaseDelay)\<close> rounds to \<open>2 ^ 53\<close> and the delay
  returned is \<open>2 ^ 53\<close>, which is not the base delay.
\<close>

theorem backoff_exact_counterexample:
  "BaseDelay \<lparr>URL = ''wss://jetstream'', BaseDelay = 9007199254740993, MaxDelay = 9007199254740993,
              JitterFactor = Fin 0\<rparr>
     \<le> MaxDelay \<lparr>URL = ''wss://jetstream'', BaseDelay = 9007199254740993, MaxDelay = 9007199254740993,
              JitterFactor = Fin 0\<rparr>
   \<and> fst (computeBackoff
        (fresh_client \<lparr>URL = ''wss://jetstream'', BaseDelay = 9007199254740993,
                        MaxDelay = 9007199254740993, JitterFactor = Fin 0\<rparr>)
        (world_of (Fin 0) []))
      = Some 9007199254740992
   \<and> min (9007199254740993 * 2 ^ 0) 9007199254740993 \<noteq> (9007199254740992 :: int)"
proof -
  have "rnd 9007199254740992 = Fin 9007199254740992" using rnd_int[of 9007199254740992] by simp
  then show ?thesis
    by (simp add: fresh_client_def computeBackoff_capped capped_backoff_def f64_of_int_def
          f64_pow2_def rnd_2p53_plus_1)
qed

text \<open>
  Claim C3 (as amended). For \<open>0 < base \<le> max \<le> 2 ^ 53\<close> ns, a jitter fraction
  \<open>0 < f \<le> 1\<close>, an attempt count \<open>n \<ge> 0\<close> and every draw in \<open>[0, 1)\<close>, with
  \<open>raw = min (base \<times> 2 ^ n) max\<close>: \<^verbatim>\<open>computeBackoff\<close> returns a delay \<open>d\<close> with
  \<open>lo \<le> d \<le> hi\<close>, where \<open>lo\<close> and \<open>hi\<close> are \<open>raw \<times> (1 - f/2)\<close> and \<open>raw \<times> (1 + f/2)\<close>
  as float64 arithmetic evaluates them, cut to whole nanoseconds; and
  \<open>raw \<times> (1 - f/2) \<times> (1 - 2 powi -49) - 1 < lo\<close> and \<open>hi \<le> raw \<times> (1 + f/2) \<times> (1 + 2 powi -49)\<close>.
  So the delay is in the spec's interval up to the truncation to a whole nanosecond (below)
  and a relative rounding error of \<open>2 powi -49\<close>.
\<close>

theorem jitter_interval:
  fixes c :: "'h Client"
  assumes "0 < BaseDelay (config c)" and "BaseDelay (config c) \<le> MaxDelay (config c)"
    and "MaxDelay (config c) \<le> 2 ^ 53"
    and "JitterFactor (config c) = Fin f" and "0 < f" and "f \<le> 1"
    and "0 \<le> sint (reconnectCount c)"
    and "rng w (rng_pos w) = Fin \<rho>" and "0 \<le> \<rho>" and "\<rho> < 1"
  shows "let raw = min (BaseDelay (config c) * 2 ^ nat (sint (reconnectCount c))) (MaxDelay (config c))
         in \<exists>d lo hi.
              computeBackoff c w = (Some d, w\<lparr>rng_pos := rng_pos w + 1\<rparr>)
            \<and> jitter_scaled (Fin (of_int raw)) (Fin f) (Fin (- (1/2))) = Some lo
            \<and> jitter_scaled (Fin (of_int raw)) (Fin f) (Fin (1/2)) = Some hi
            \<and> lo \<le> d \<and> d \<le> hi
            \<and> of_int raw * (1 - f/2) * (1 - 1 / 2 ^ 49) - 1 < (of_int lo :: rat)
            \<and> (of_int hi :: rat) \<le> of_int raw * (1 + f/2) * (1 + 1 / 2 ^ 49)"
proof -
  define raw where "raw = min (BaseDelay (config c) * 2 ^ nat (sint (reconnectCount c))) (MaxDelay (config c))"
  define y :: rat where "y = of_int raw"
  have cap: "capped_backoff (config c) (sint (reconnectCount c)) = Fin y"
    unfolding y_def raw_def using assms(1,2,3,7) by (intro capped_backoff_exact') auto
  define X where "X = BaseDelay (config c) * 2 ^ nat (sint (reconnectCount c))"
  have "0 < X" unfolding X_def using assms(1) by simp
  then have "1 \<le> X" by simp
  then have "1 \<le> raw" "raw \<le> 2 ^ 53"
    unfolding raw_def X_def[symmetric] using assms(1,2,3) by auto
  then have y: "1 \<le> y" "y \<le> 2 ^ 53"
    unfolding y_def by (metis of_int_le_iff of_int_1, metis of_int_le_iff of_int_numeral of_int_power)
  then have y0: "0 \<le> y" "y = 0 \<or> 1 \<le> y" by simp_all
  note f = assms(5,6)
  note cb = computeBackoff_jitter[OF cap y0(1) y(2) assms(4) f assms(8,9,10)]
  have h1: "- (1/2) \<le> (- (1/2) :: rat)" "(- (1/2) :: rat) \<le> 1/2" "(1/2::rat) \<le> 1/2" "- (1/2) \<le> (1/2 :: rat)"
    by simp_all
  have lo: "jitter_scaled (Fin y) (Fin f) (Fin (- (1/2))) = Some \<lfloor>scale y f (- (1/2))\<rfloor>"
    by (rule jitter_scaled_eval[OF y0(1) y(2) h1(1,2) f])
  have hi: "jitter_scaled (Fin y) (Fin f) (Fin (1/2)) = Some \<lfloor>scale y f (1/2)\<rfloor>"
    by (rule jitter_scaled_eval[OF y0(1) y(2) h1(4,3) f])
  have m1: "\<lfloor>scale y f (- (1/2))\<rfloor> \<le> \<lfloor>scale y f (rval (\<rho> - 1/2))\<rfloor>"
    using scale_mono[OF y0(1) order_refl h1(1) cb(2,3) f] by (rule floor_mono)
  have m2: "\<lfloor>scale y f (rval (\<rho> - 1/2))\<rfloor> \<le> \<lfloor>scale y f (1/2)\<rfloor>"
    using scale_mono[OF y0(1) order_refl cb(2,3) h1(3) f] by (rule floor_mono)
  have "y * (1 - f/2) * (1 - 1 / 2 ^ 49) \<le> scale y f (- (1/2))"
    by (rule scale_lo[OF y0(2) f])
  moreover have "scale y f (- (1/2)) - 1 < of_int \<lfloor>scale y f (- (1/2))\<rfloor>" by linarith
  ultimately have b1: "y * (1 - f/2) * (1 - 1 / 2 ^ 49) - 1 < of_int \<lfloor>scale y f (- (1/2))\<rfloor>"
    by linarith
  have "of_int \<lfloor>scale y f (1/2)\<rfloor> \<le> scale y f (1/2)" by simp
  also have "\<dots> \<le> y * (1 + f/2) * (1 + 1 / 2 ^ 49)" by (rule scale_hi[OF y0(2) f])
  finally have b2: "of_int \<lfloor>scale y f (1/2)\<rfloor> \<le> y * (1 + f/2) * (1 + 1 / 2 ^ 49)" .
  have "\<exists>d lo hi.
              computeBackoff c w = (Some d, w\<lparr>rng_pos := rng_pos w + 1\<rparr>)
            \<and> jitter_scaled (Fin y) (Fin f) (Fin (- (1/2))) = Some lo
            \<and> jitter_scaled (Fin y) (Fin f) (Fin (1/2)) = Some hi
            \<and> lo \<le> d \<and> d \<le> hi
            \<and> y * (1 - f/2) * (1 - 1 / 2 ^ 49) - 1 < (of_int lo :: rat)
            \<and> (of_int hi :: rat) \<le> y * (1 + f/2) * (1 + 1 / 2 ^ 49)"
    using cb(1) lo hi m1 m2 b1 b2 by blast
  then show ?thesis unfolding Let_def raw_def[symmetric] y_def[symmetric] .
qed

theorem jitter_interval_witness:
  "0 < BaseDelay (config (fresh_client \<lparr>URL = ''wss://jetstream'', BaseDelay = 101, MaxDelay = 101, JitterFactor = Fin (1/2)\<rparr>))
   \<and> (0::rat) < 1/2 \<and> (1/2::rat) \<le> 1 \<and> (0::rat) \<le> 1/256 \<and> (1/256::rat) < 1
   \<and> (\<exists>d lo hi.
        computeBackoff
          (fresh_client \<lparr>URL = ''wss://jetstream'', BaseDelay = 101, MaxDelay = 101, JitterFactor = Fin (1/2)\<rparr>)
          (world_of (Fin (1/256)) []) = (Some d, (world_of (Fin (1/256)) [])\<lparr>rng_pos := 1\<rparr>)
        \<and> lo \<le> d \<and> d \<le> hi
        \<and> 101 * (1 - (1/2)/2) * (1 - 1 / 2 ^ 49) - 1 < (of_int lo :: rat)
        \<and> (of_int hi :: rat) \<le> 101 * (1 + (1/2)/2) * (1 + 1 / 2 ^ 49))"
proof -
  let ?c = "fresh_client \<lparr>URL = ''wss://jetstream'', BaseDelay = 101, MaxDelay = 101, JitterFactor = Fin (1/2)\<rparr>"
  let ?w = "world_of (Fin (1/256)) []"
  have "let raw = min (BaseDelay (config ?c) * 2 ^ nat (sint (reconnectCount ?c))) (MaxDelay (config ?c))
         in \<exists>d lo hi.
              computeBackoff ?c ?w = (Some d, ?w\<lparr>rng_pos := rng_pos ?w + 1\<rparr>)
            \<and> jitter_scaled (Fin (of_int raw)) (Fin (1/2)) (Fin (- (1/2))) = Some lo
            \<and> jitter_scaled (Fin (of_int raw)) (Fin (1/2)) (Fin (1/2)) = Some hi
            \<and> lo \<le> d \<and> d \<le> hi
            \<and> of_int raw * (1 - (1/2)/2) * (1 - 1 / 2 ^ 49) - 1 < (of_int lo :: rat)
            \<and> (of_int hi :: rat) \<le> of_int raw * (1 + (1/2)/2) * (1 + 1 / 2 ^ 49)"
    by (rule jitter_interval[of ?c "1/2" ?w "1/256"])
       (simp_all add: fresh_client_def world_of_def const_rng_def)
  then obtain d lo hi where
    "computeBackoff ?c ?w = (Some d, ?w\<lparr>rng_pos := rng_pos ?w + 1\<rparr>)" "lo \<le> d" "d \<le> hi"
    "101 * (1 - (1/2)/2) * (1 - 1 / 2 ^ 49) - 1 < (of_int lo :: rat)"
    "(of_int hi :: rat) \<le> 101 * (1 + (1/2)/2) * (1 + 1 / 2 ^ 49)"
    unfolding Let_def by (auto simp: fresh_client_def)
  then have "\<exists>d lo hi.
        computeBackoff ?c ?w = (Some d, ?w\<lparr>rng_pos := 1\<rparr>)
        \<and> lo \<le> d \<and> d \<le> hi
        \<and> 101 * (1 - (1/2)/2) * (1 - 1 / 2 ^ 49) - 1 < (of_int lo :: rat)
        \<and> (of_int hi :: rat) \<le> 101 * (1 + (1/2)/2) * (1 + 1 / 2 ^ 49)"
    by (intro exI[of _ d] exI[of _ lo] exI[of _ hi]) (simp add: world_of_def)
  then show ?thesis by (simp add: fresh_client_def)
qed

text \<open>
  Claim C3 as stated fails: the delay is cut to a whole number of nanoseconds, which can
  take it below \<open>raw \<times> (1 - f/2)\<close>. With base = max = 101 ns, \<open>f = 1/2\<close>, attempt count 0
  and the draw \<open>1/256\<close> the delay is 75 ns, and the lower end of the interval is 75.75.
\<close>

theorem jitter_interval_counterexample:
  "fst (computeBackoff
      (fresh_client \<lparr>URL = ''wss://jetstream'', BaseDelay = 101, MaxDelay = 101, JitterFactor = Fin (1/2)\<rparr>)
      (world_of (Fin (1/256)) [])) = Some 75
   \<and> \<not> (of_int (min (101 * 2 ^ 0) 101) * (1 - (1/2) / 2) \<le> (of_int 75 :: rat))"
proof -
  let ?c = "fresh_client \<lparr>URL = ''wss://jetstream'', BaseDelay = 101, MaxDelay = 101, JitterFactor = Fin (1/2)\<rparr>"
  let ?w = "world_of (Fin (1/256)) []"
  have cap: "capped_backoff (config ?c) (sint (reconnectCount ?c)) = Fin 101"
    using example_capped[of 101] by (simp add: fresh_client_def)
  have cb: "computeBackoff ?c ?w
              = (Some \<lfloor>scale 101 (1/2) (rval (1/256 - 1/2))\<rfloor>, ?w\<lparr>rng_pos := rng_pos ?w + 1\<rparr>)"
    by (rule computeBackoff_jitter(1)[OF cap])
       (simp_all add: fresh_client_def world_of_def const_rng_def)
  have r1: "rval (1/256 - 1/2) = - (127/256)" using rval_exact[of "- 127" "- 8"] by simp
  have r2: "rval (- (127/256) * (1/2)) = - (127/512)" using rval_exact[of "- 127" "- 9"] by simp
  have r3: "rval (1 + - (127/512)) = 385/512" using rval_exact[of 385 "- 9"] by simp
  have r4: "rval (101 * (385/512)) = 38885/512" using rval_exact[of 38885 "- 9"] by simp
  have sc: "scale 101 (1/2) (rval (1/256 - 1/2)) = 38885/512"
    unfolding scale_def r1 r2 r3 r4 ..
  have fl: "\<lfloor>38885/512 :: rat\<rfloor> = 75" by (rule floor_unique) simp_all
  have "fst (computeBackoff ?c ?w) = Some 75"
    by (simp only: cb fst_conv sc fl)
  moreover have "\<not> (of_int (min (101 * 2 ^ 0) 101) * (1 - (1/2) / 2) \<le> (of_int 75 :: rat))"
    by simp
  ultimately show ?thesis by (rule conjI)
qed

text \<open>
  Claim C4 (as amended). The cap is applied before the jitter. For a base delay
  \<open>0 < base < 2 ^ 63\<close>, a maximum \<open>0 \<le> max \<le> 2 ^ 53\<close> ns (whether or not
  \<open>base \<le> max\<close>), every attempt count and every draw in \<open>[0, 1)\<close>: with the jitter
  disabled (\<open>f \<le> 0\<close>) the delay returned is at most \<open>max\<close>; with a jitter fraction
  \<open>0 < f \<le> 1\<close> it is at most \<open>max \<times> (1 + f/2) \<times> (1 + 2 powi -49)\<close>, and it can exceed
  \<open>max\<close>.
\<close>

theorem backoff_ceiling:
  fixes c :: "'h Client"
  assumes "0 < BaseDelay (config c)" and "BaseDelay (config c) < 2 ^ 63"
    and "0 \<le> MaxDelay (config c)" and "MaxDelay (config c) \<le> 2 ^ 53"
    and "JitterFactor (config c) = Fin f" and "f \<le> 1"
    and "rng w (rng_pos w) = Fin \<rho>" and "0 \<le> \<rho>" and "\<rho> < 1"
  shows "\<exists>d. fst (computeBackoff c w) = Some d
            \<and> (if 0 < f
                then (of_int d :: rat) \<le> of_int (MaxDelay (config c)) * (1 + f/2) * (1 + 1 / 2 ^ 49)
                else d \<le> MaxDelay (config c))"
proof -
  let ?m = "MaxDelay (config c)"
  obtain y where cap: "capped_backoff (config c) (sint (reconnectCount c)) = Fin y"
    and y: "0 \<le> y" "y \<le> of_int ?m"
    using capped_backoff_range[OF assms(1,2,3,4)] by blast
  have "(of_int ?m :: rat) \<le> of_int (2 ^ 53)" using assms(4) by (simp only: of_int_le_iff)
  then have m53: "(of_int ?m :: rat) \<le> 2 ^ 53" by simp
  then have y53: "y \<le> 2 ^ 53" using y by simp
  show ?thesis
  proof (cases "0 < f")
    case False
    have "\<lfloor>y\<rfloor> \<le> \<lfloor>of_int ?m :: rat\<rfloor>" using y(2) by (rule floor_mono)
    then have fl: "\<lfloor>y\<rfloor> \<le> ?m" by simp
    have "0 \<le> \<lfloor>y\<rfloor>" using y(1) by simp
    then have "f64_to_int64 (Fin y) = Some \<lfloor>y\<rfloor>"
      using fl assms(4) y(1) y53 by simp
    then show ?thesis using False fl by (simp add: computeBackoff_capped assms(5) cap)
  next
    case True
    note f = True assms(6)
    note cb = computeBackoff_jitter[OF cap y(1) y53 assms(5) f assms(7,8,9)]
    have mz: "(of_int ?m :: rat) = 0 \<or> 1 \<le> (of_int ?m :: rat)"
      using assms(3) by (cases "?m = 0") auto
    have "of_int \<lfloor>scale y f (rval (\<rho> - 1/2))\<rfloor> \<le> scale y f (rval (\<rho> - 1/2))" by simp
    also have "\<dots> \<le> scale (of_int ?m) f (1/2)"
      using scale_mono[OF y cb(2,3) _ f] by simp
    also have "\<dots> \<le> of_int ?m * (1 + f/2) * (1 + 1 / 2 ^ 49)" by (rule scale_hi[OF mz f])
    finally show ?thesis using cb(1) True by simp
  qed
qed

theorem backoff_ceiling_witness:
  "0 < BaseDelay (config (fresh_client \<lparr>URL = ''wss://jetstream'', BaseDelay = 100000000, MaxDelay = 100000000,
                      JitterFactor = Fin (1/2)\<rparr>))
   \<and> (1/2::rat) \<le> 1 \<and> (0::rat) \<le> 3/4 \<and> (3/4::rat) < 1
   \<and> (\<exists>d. fst (computeBackoff
        (fresh_client \<lparr>URL = ''wss://jetstream'', BaseDelay = 100000000, MaxDelay = 100000000,
                      JitterFactor = Fin (1/2)\<rparr>)
        (world_of (Fin (3/4)) [])) = Some d
      \<and> (of_int d :: rat) \<le> 100000000 * (1 + (1/2)/2) * (1 + 1 / 2 ^ 49))"
proof -
  let ?c = "fresh_client \<lparr>URL = ''wss://jetstream'', BaseDelay = 100000000, MaxDelay = 100000000,
                      JitterFactor = Fin (1/2)\<rparr>"
  let ?w = "world_of (Fin (3/4)) []"
  have "\<exists>d. fst (computeBackoff ?c ?w) = Some d
            \<and> (if (0::rat) < 1/2
                then (of_int d :: rat) \<le> of_int (MaxDelay (config ?c)) * (1 + (1/2)/2) * (1 + 1 / 2 ^ 49)
                else d \<le> MaxDelay (config ?c))"
    by (rule backoff_ceiling[of ?c "1/2" ?w "3/4"])
       (simp_all add: fresh_client_def world_of_def const_rng_def)
  then show ?thesis by (simp add: fresh_client_def)
qed

text \<open>
  Claim C4 as stated fails with jitter: base = max = 100 ms, \<open>f = 1/2\<close>, attempt count 0
  and the draw \<open>3/4\<close> give the factor \<open>1 + (3/4 - 1/2) \<times> 1/2 = 9/8\<close> and a delay of
  112.5 ms, above the maximum of 100 ms.
\<close>

theorem backoff_ceiling_counterexample:
  "fst (computeBackoff
      (fresh_client \<lparr>URL = ''wss://jetstream'', BaseDelay = 100000000, MaxDelay = 100000000,
                      JitterFactor = Fin (1/2)\<rparr>)
      (world_of (Fin (3/4)) [])) = Some 112500000
   \<and> \<not> (112500000 \<le> MaxDelay \<lparr>URL = ''wss://jetstream'', BaseDelay = 100000000, MaxDelay = 100000000,
                      JitterFactor = Fin (1/2)\<rparr>)"
proof -
  let ?c = "fresh_client \<lparr>URL = ''wss://jetstream'', BaseDelay = 100000000, MaxDelay = 100000000,
                      JitterFactor = Fin (1/2)\<rparr>"
  let ?w = "world_of (Fin (3/4)) []"
  have cap: "capped_backoff (config ?c) (sint (reconnectCount ?c)) = Fin 100000000"
    using example_capped[of 100000000] by (simp add: fresh_client_def)
  have cb: "computeBackoff ?c ?w
              = (Some \<lfloor>scale 100000000 (1/2) (rval (3/4 - 1/2))\<rfloor>, ?w\<lparr>rng_pos := rng_pos ?w + 1\<rparr>)"
    by (rule computeBackoff_jitter(1)[OF cap])
       (simp_all add: fresh_client_def world_of_def const_rng_def)
  have r1: "rval (3/4 - 1/2) = 1/4" using rval_exact[of 1 "- 2"] by simp
  have r2: "rval (1/4 * (1/2)) = 1/8" using rval_exact[of 1 "- 3"] by simp
  have r3: "rval (1 + 1/8) = 9/8" using rval_exact[of 9 "- 3"] by simp
  have r4: "rval (100000000 * (9/8)) = 112500000" using rval_exact[of 112500000 0] by simp
  have sc: "scale 100000000 (1/2) (rval (3/4 - 1/2)) = 112500000"
    unfolding scale_def r1 r2 r3 r4 ..
  have fl: "\<lfloor>112500000 :: rat\<rfloor> = 112500000" by simp
  have "fst (computeBackoff ?c ?w) = Some 112500000"
    by (simp only: cb fst_conv sc fl)
  moreover have "\<not> (112500000 \<le> MaxDelay \<lparr>URL = ''wss://jetstream'', BaseDelay = 100000000,
                      MaxDelay = 100000000, JitterFactor = Fin (1/2)\<rparr>)"
    by simp
  ultimately show ?thesis by (rule conjI)
qed

section \<open>The connection driver\<close>

lemma deliver_cancel_fields [simp]:
  "open_conns (deliver_cancel w) = open_conns w"
  "waits (deliver_cancel w) = waits w"
  "logs (deliver_cancel w) = logs w"
  "hstate (deliver_cancel w) = hstate w"
  "rng (deliver_cancel w) = rng w"
  "rng_pos (deliver_cancel w) = rng_pos w"
  by (simp_all add: deliver_cancel_def)

lemma log_append_fields [simp]:
  "open_conns (log_append l m a w) = open_conns w"
  "waits (log_append l m a w) = waits w"
  "logs (log_append l m a w) = logs w @ [(l, m, a)]"
  "hstate (log_append l m a w) = hstate w"
  "rng (log_append l m a w) = rng w"
  "rng_pos (log_append l m a w) = rng_pos w"
  "script (log_append l m a w) = script w"
  "ctx_err (log_append l m a w) = ctx_err w"
  by (simp_all add: log_append_def)

lemma deliver_cancel_log_append:
  "deliver_cancel (log_append l m a w) = log_append l m a (deliver_cancel w)"
  by (cases "ctx_err w") (simp_all add: deliver_cancel_def log_append_def)

lemma deliver_cancel_ctx_keep: "ctx_err w = Some e \<Longrightarrow> ctx_err (deliver_cancel w) = Some e"
  by (simp add: deliver_cancel_def)

lemma deliver_cancel_ctx_origin:
  "ctx_err (deliver_cancel w) = Some e \<Longrightarrow> ctx_err w = Some e \<or> (ctx_err w = None \<and> EvCancel e \<in> set (script w))"
  by (auto simp: deliver_cancel_def split: option.splits list.splits event.splits)

lemma deliver_cancel_script_subset: "set (script (deliver_cancel w)) \<subseteq> set (script w)"
  by (auto simp: deliver_cancel_def dest: set_dropWhileD)

lemma deliver_cancel_idem: "deliver_cancel (deliver_cancel w) = deliver_cancel w"
proof -
  have "dropWhile is_cancel (dropWhile is_cancel xs) = dropWhile is_cancel xs" for xs
    by (induction xs) auto
  moreover have "(case dropWhile is_cancel xs of EvCancel r # x \<Rightarrow> Some r | _ \<Rightarrow> None) = None" for xs
    by (induction xs) (auto split: event.splits)
  ultimately show ?thesis
    by (auto simp: deliver_cancel_def split: option.splits)
qed

lemma close_eq:
  "close c w = (c\<lparr>conn := None, isConnected := False\<rparr>,
                w\<lparr>open_conns := (case conn c of Some k \<Rightarrow> remove1 k (open_conns w) | None \<Rightarrow> open_conns w)\<rparr>)"
  by (cases c) (auto simp: close_def split: option.splits)

lemma connect_cases:
  "connect c w =
     (case next_event w of
        Some (EvDial (Inl err)) \<Rightarrow>
          (Returned (Some err), c,
           (deliver_cancel (log_append Info ''connecting to jetstream'' [(''url'', LString (URL (config c)))] w))
             \<lparr>script := tl (script (deliver_cancel w))\<rparr>)
      | Some (EvDial (Inr k)) \<Rightarrow>
          (Returned None, c\<lparr>conn := Some k, isConnected := True\<rparr>,
           log_append Info ''connected to jetstream'' []
             ((deliver_cancel (log_append Info ''connecting to jetstream'' [(''url'', LString (URL (config c)))] w))
                \<lparr>script := tl (script (deliver_cancel w)), open_conns := open_conns w @ [k]\<rparr>))
      | _ \<Rightarrow> (Blocked, c,
              deliver_cancel (log_append Info ''connecting to jetstream'' [(''url'', LString (URL (config c)))] w)))"
  by (auto simp: connect_def next_event_def Let_def deliver_cancel_log_append
           split: list.splits event.splits sum.splits option.splits)

lemma computeBackoff_world:
  "snd (computeBackoff c w) = w \<or> snd (computeBackoff c w) = w\<lparr>rng_pos := rng_pos w + 1\<rparr>"
  by (simp add: computeBackoff_def Let_def rand_Float64_def)

lemma computeBackoff_fields:
  "ctx_err (snd (computeBackoff c w)) = ctx_err w"
  "open_conns (snd (computeBackoff c w)) = open_conns w"
  "waits (snd (computeBackoff c w)) = waits w"
  "logs (snd (computeBackoff c w)) = logs w"
  "hstate (snd (computeBackoff c w)) = hstate w"
  using computeBackoff_world[of c w] by auto

lemma computeBackoff_draw:
  "rng w1 = rng w \<Longrightarrow> rng_pos w1 = rng_pos w \<Longrightarrow> fst (computeBackoff c w1) = fst (computeBackoff c w)"
  by (simp add: computeBackoff_def Let_def rand_Float64_def)

lemma readLoop_step_facts:
  assumes "readLoop_step c w = (st, c', w')"
  shows "reconnectCount c' = reconnectCount c" and "config c' = config c" and "handler c' = handler c"
    and "waits w' = waits w" and "rng w' = rng w" and "rng_pos w' = rng_pos w"
    and "ctx_err w \<noteq> None \<Longrightarrow> ctx_err w' = ctx_err w"
    and "st = Continue \<Longrightarrow> c' = c \<and> ctx_err w' = None \<and> open_conns w' = open_conns w \<and> conn c \<noteq> None"
    and "st = Stop (Returned u) \<Longrightarrow>
           (ctx_err w' \<noteq> None \<and> c' = c \<and> open_conns w' = open_conns w)
         \<or> (\<exists>k. conn c = Some k \<and> c' = c\<lparr>conn := None, isConnected := False\<rparr>
                \<and> open_conns w' = remove1 k (open_conns w))"
    and "st = Stop Panicked \<Longrightarrow> conn c = None"
    and "st = Stop Blocked \<Longrightarrow> ctx_err w' = None \<and> c' = c \<and> open_conns w' = open_conns w"
  using assms
  by (auto simp: readLoop_step_def Let_def close_eq deliver_cancel_ctx_keep
           split: if_splits option.splits list.splits event.splits sum.splits prod.splits)

lemma readLoop_step_ctx:
  assumes "readLoop_step c w = (st, c', w')" "ctx_err w' = Some e"
  shows "ctx_err w = Some e \<or> (ctx_err w = None \<and> EvCancel e \<in> set (script w))"
  using assms deliver_cancel_ctx_origin[of w e]
  by (auto simp: readLoop_step_def Let_def close_eq
           split: if_splits option.splits list.splits event.splits sum.splits prod.splits)

lemma readLoop_step_script:
  assumes "readLoop_step c w = (st, c', w')"
  shows "set (script w') \<subseteq> set (script w)"
proof -
  have "set (script w') \<subseteq> set (script (deliver_cancel w))"
    using assms
    by (auto simp: readLoop_step_def Let_def close_eq
           split: if_splits option.splits list.splits event.splits sum.splits prod.splits)
  with deliver_cancel_script_subset[of w] show ?thesis by blast
qed

lemma readLoop_unfold:
  "readLoop_step c w = (Continue, c1, w1) \<Longrightarrow> readLoop c w = readLoop c1 w1"
  "readLoop_step c w = (Stop out, c1, w1) \<Longrightarrow> readLoop c w = (out, c1, w1)"
  by (simp_all add: readLoop.simps[of c w])

lemma readLoop_facts:
  "readLoop c w = (out, c', w') \<Longrightarrow>
     reconnectCount c' = reconnectCount c \<and> config c' = config c \<and> handler c' = handler c
   \<and> waits w' = waits w \<and> rng w' = rng w \<and> rng_pos w' = rng_pos w
   \<and> (ctx_err w \<noteq> None \<longrightarrow> ctx_err w' = ctx_err w)
   \<and> (\<forall>e. ctx_err w' = Some e \<longrightarrow> ctx_err w = Some e \<or> (ctx_err w = None \<and> EvCancel e \<in> set (script w)))
   \<and> set (script w') \<subseteq> set (script w)
   \<and> (out = Returned () \<longrightarrow>
           (ctx_err w' \<noteq> None \<and> c' = c \<and> open_conns w' = open_conns w)
         \<or> (\<exists>k. conn c = Some k \<and> c' = c\<lparr>conn := None, isConnected := False\<rparr>
                \<and> open_conns w' = remove1 k (open_conns w)))
   \<and> (out = Panicked \<longrightarrow> conn c = None)
   \<and> (out = Blocked \<longrightarrow> ctx_err w' = None \<and> c' = c \<and> open_conns w' = open_conns w)"
proof (induction c w arbitrary: out c' w' rule: readLoop.induct)
  case (1 c w)
  obtain st c1 w1 where st: "readLoop_step c w = (st, c1, w1)" by (cases "readLoop_step c w")
  note f = readLoop_step_facts[OF st] and sc = readLoop_step_script[OF st]
  show ?case
  proof (cases st)
    case Continue
    with st "1.prems" have r: "readLoop c1 w1 = (out, c', w')" by (simp add: readLoop_unfold)
    have c1: "c1 = c" "ctx_err w1 = None" "open_conns w1 = open_conns w"
      using f(8) Continue by simp_all
    note ih = "1.IH"[OF st[symmetric] Continue refl r]
    have ctx: "ctx_err w = None" using f(7) c1(2) by (cases "ctx_err w") auto
    have "\<forall>e. ctx_err w' = Some e \<longrightarrow> ctx_err w = Some e \<or> (ctx_err w = None \<and> EvCancel e \<in> set (script w))"
      using ih ctx c1(2) sc by auto
    then show ?thesis using ih f(1-6) c1 sc ctx by auto
  next
    case (Stop o')
    with st "1.prems" have eq: "out = o'" "c' = c1" "w' = w1" by (simp_all add: readLoop_unfold)
    have "\<forall>e. ctx_err w' = Some e \<longrightarrow> ctx_err w = Some e \<or> (ctx_err w = None \<and> EvCancel e \<in> set (script w))"
      using readLoop_step_ctx[OF st] eq by blast
    then show ?thesis using f(1-7) f(9)[of "()"] f(10,11) sc Stop eq by auto
  qed
qed

lemma next_event_deliver [simp]: "next_event (deliver_cancel w) = next_event w"
  by (simp add: next_event_def deliver_cancel_idem)

lemma next_event_log [simp]: "next_event (log_append l m a w) = next_event w"
  by (simp add: next_event_def deliver_cancel_log_append)

lemma Run_step_cancelled:
  assumes "ctx_err (deliver_cancel w) \<noteq> None"
  shows "Run_step c w =
           (Stop (Returned (ctx_err (deliver_cancel w))), c\<lparr>conn := None, isConnected := False\<rparr>,
            (log_append Info ''jetstream client stopping due to context cancellation'' [] (deliver_cancel w))
              \<lparr>open_conns := (case conn c of Some k \<Rightarrow> remove1 k (open_conns w) | None \<Rightarrow> open_conns w)\<rparr>)"
  using assms by (cases "conn c") (auto simp: Run_step_def Let_def close_eq)

lemma Run_step_dial_failed:
  assumes nc: "ctx_err (deliver_cancel w) = None" and ev: "next_event w = Some (EvDial (Inl err))"
    and st: "Run_step c w = (st, c', w')"
  shows "c' = c\<lparr>reconnectCount := reconnectCount c + 1\<rparr>"
    and "waits w' = waits w @ [fst (computeBackoff c w)]"
    and "open_conns w' = open_conns w"
    and "hstate w' = hstate w"
    and "logs w' = logs w @
           [(Info, ''connecting to jetstream'', [(''url'', LString (URL (config c)))]),
            (Warn, ''jetstream connection failed'',
               [(''error'', LString (error_msg err)), (''attempt'', LInt (sint (reconnectCount c + 1)))]),
            (Info, ''scheduling reconnect'',
               [(''delay'', LDuration (fst (computeBackoff c w))),
                (''attempt'', LInt (sint (reconnectCount c + 1)))])]"
    and "st = Continue \<or> st = Stop Blocked \<or> (st = Stop (Returned (ctx_err w')) \<and> ctx_err w' \<noteq> None)"
    and "st = Stop Blocked \<Longrightarrow> ctx_err w' = None"
proof -
  let ?w1 = "(deliver_cancel (log_append Info ''connecting to jetstream'' [(''url'', LString (URL (config c)))] (deliver_cancel w)))
             \<lparr>script := tl (script (deliver_cancel (deliver_cancel w)))\<rparr>"
  let ?w2 = "log_append Warn ''jetstream connection failed''
               [(''error'', LString (error_msg err)), (''attempt'', LInt (sint (reconnectCount c + 1)))] ?w1"
  have cn: "connect c (deliver_cancel w) = (Returned (Some err), c, ?w1)"
    using ev by (simp add: connect_cases)
  obtain d w3 where cb: "computeBackoff c ?w2 = (d, w3)" by (cases "computeBackoff c ?w2")
  have d: "d = fst (computeBackoff c w)"
    using cb computeBackoff_draw[of ?w2 w c] by (simp add: deliver_cancel_log_append)
  have w3: "open_conns w3 = open_conns w" "waits w3 = waits w" "hstate w3 = hstate w"
    "logs w3 = logs ?w2"
    using computeBackoff_fields[of c ?w2] cb by (simp_all add: deliver_cancel_log_append)
  note splits = list.splits event.splits if_splits
  from st nc show "c' = c\<lparr>reconnectCount := reconnectCount c + 1\<rparr>"
    by (auto simp: Run_step_def Let_def cn cb split: splits)
  from st nc w3 show "waits w' = waits w @ [fst (computeBackoff c w)]"
    using d by (auto simp: Run_step_def Let_def cn cb split: splits)
  from st nc w3 show "open_conns w' = open_conns w"
    by (auto simp: Run_step_def Let_def cn cb split: splits)
  from st nc w3 show "hstate w' = hstate w"
    by (auto simp: Run_step_def Let_def cn cb split: splits)
  from st nc w3 show "logs w' = logs w @
           [(Info, ''connecting to jetstream'', [(''url'', LString (URL (config c)))]),
            (Warn, ''jetstream connection failed'',
               [(''error'', LString (error_msg err)), (''attempt'', LInt (sint (reconnectCount c + 1)))]),
            (Info, ''scheduling reconnect'',
               [(''delay'', LDuration (fst (computeBackoff c w))),
                (''attempt'', LInt (sint (reconnectCount c + 1)))])]"
    using d by (auto simp: Run_step_def Let_def cn cb split: splits)
  from st nc show "st = Continue \<or> st = Stop Blocked \<or> (st = Stop (Returned (ctx_err w')) \<and> ctx_err w' \<noteq> None)"
    by (auto simp: Run_step_def Let_def cn cb split: splits)
  from st nc show "st = Stop Blocked \<Longrightarrow> ctx_err w' = None"
    by (auto simp: Run_step_def Let_def cn cb split: splits)
qed

lemma Run_step_dial_ok:
  assumes nc: "ctx_err (deliver_cancel w) = None" and ev: "next_event w = Some (EvDial (Inr k))"
    and st: "Run_step c w = (st, c', w')"
  shows "\<exists>w1 out. waits w1 = waits w \<and> open_conns w1 = open_conns w @ [k] \<and> hstate w1 = hstate w
           \<and> rng w1 = rng w \<and> rng_pos w1 = rng_pos w
           \<and> ctx_err w1 = None \<and> set (script w1) \<subseteq> set (script w)
           \<and> readLoop (c\<lparr>conn := Some k, isConnected := True, reconnectCount := 0\<rparr>) w1 = (out, c', w')
           \<and> st = (case out of Returned u \<Rightarrow> Continue | Blocked \<Rightarrow> Stop Blocked | Panicked \<Rightarrow> Stop Panicked)"
proof -
  let ?w1 = "log_append Info ''connected to jetstream'' []
             ((deliver_cancel (log_append Info ''connecting to jetstream'' [(''url'', LString (URL (config c)))] (deliver_cancel w)))
                \<lparr>script := tl (script (deliver_cancel (deliver_cancel w))),
                  open_conns := open_conns (deliver_cancel w) @ [k]\<rparr>)"
  let ?c1 = "c\<lparr>conn := Some k, isConnected := True, reconnectCount := 0\<rparr>"
  have cn: "connect c (deliver_cancel w) = (Returned None, c\<lparr>conn := Some k, isConnected := True\<rparr>, ?w1)"
    using ev by (simp add: connect_cases)
  obtain out c2 w2 where rl: "readLoop ?c1 ?w1 = (out, c2, w2)" by (cases "readLoop ?c1 ?w1")
  have eq: "c' = c2" "w' = w2"
    and s: "st = (case out of Returned u \<Rightarrow> Continue | Blocked \<Rightarrow> Stop Blocked | Panicked \<Rightarrow> Stop Panicked)"
    using st nc rl by (auto simp: Run_step_def Let_def cn split: outcome.splits)
  have "set (script ?w1) \<subseteq> set (script (deliver_cancel w))"
    by (cases "script (deliver_cancel w)") (auto simp: deliver_cancel_idem deliver_cancel_log_append)
  then have sub: "set (script ?w1) \<subseteq> set (script w)"
    using deliver_cancel_script_subset[of w] by blast
  have ctx: "ctx_err ?w1 = None"
    using nc by (simp add: deliver_cancel_idem deliver_cancel_log_append)
  show ?thesis
    by (rule exI[of _ ?w1], rule exI[of _ out]) (use rl eq s sub ctx in simp)
qed

lemma Run_step_no_dial:
  assumes nc: "ctx_err (deliver_cancel w) = None"
    and ev: "\<forall>r. next_event w \<noteq> Some (EvDial r)"
    and st: "Run_step c w = (st, c', w')"
  shows "st = Stop Blocked" and "c' = c" and "waits w' = waits w" and "open_conns w' = open_conns w"
    and "ctx_err w' = None" and "hstate w' = hstate w"
proof -
  let ?w1 = "deliver_cancel (log_append Info ''connecting to jetstream'' [(''url'', LString (URL (config c)))] (deliver_cancel w))"
  have cn: "connect c (deliver_cancel w) = (Blocked, c, ?w1)"
    using ev by (auto simp: connect_cases split: option.splits event.splits sum.splits)
  have "ctx_err ?w1 = None" using nc by (simp add: deliver_cancel_idem deliver_cancel_log_append)
  with st nc show "st = Stop Blocked" "c' = c" "waits w' = waits w" "open_conns w' = open_conns w"
    "ctx_err w' = None" "hstate w' = hstate w"
    by (auto simp: Run_step_def Let_def cn)
qed

lemma Run_step_kinds:
  "ctx_err (deliver_cancel w) \<noteq> None
   \<or> (ctx_err (deliver_cancel w) = None \<and> (\<exists>err. next_event w = Some (EvDial (Inl err))))
   \<or> (ctx_err (deliver_cancel w) = None \<and> (\<exists>k. next_event w = Some (EvDial (Inr k))))
   \<or> (ctx_err (deliver_cancel w) = None \<and> (\<forall>r. next_event w \<noteq> Some (EvDial r)))"
  by (metis sum.exhaust)

lemma Run_step_inv:
  assumes inv: "run_inv c w" and st: "Run_step c w = (st, c', w')"
  shows "st \<noteq> Stop Panicked"
    and "st = Continue \<Longrightarrow> run_inv c' w'"
    and "st = Stop (Returned e) \<Longrightarrow>
           e = ctx_err w' \<and> e \<noteq> None \<and> conn c' = None \<and> \<not> isConnected c' \<and> open_conns w' = []"
    and "st = Stop Blocked \<Longrightarrow> ctx_err w' = None"
proof -
  have dc: "ctx_err (deliver_cancel w) = None \<Longrightarrow> conn c = None \<and> open_conns w = []"
  proof -
    assume "ctx_err (deliver_cancel w) = None"
    then have "ctx_err w = None" using deliver_cancel_ctx_keep[of w] by (cases "ctx_err w") auto
    with inv show ?thesis by (simp add: run_inv_def held_def)
  qed
  consider (cancelled) "ctx_err (deliver_cancel w) \<noteq> None"
    | (failed) err where "ctx_err (deliver_cancel w) = None" "next_event w = Some (EvDial (Inl err))"
    | (ok) k where "ctx_err (deliver_cancel w) = None" "next_event w = Some (EvDial (Inr k))"
    | (none) "ctx_err (deliver_cancel w) = None" "\<forall>r. next_event w \<noteq> Some (EvDial r)"
    using Run_step_kinds[of w] by blast
  then have "st \<noteq> Stop Panicked
    \<and> (st = Continue \<longrightarrow> run_inv c' w')
    \<and> (st = Stop (Returned e) \<longrightarrow>
           e = ctx_err w' \<and> e \<noteq> None \<and> conn c' = None \<and> \<not> isConnected c' \<and> open_conns w' = [])
    \<and> (st = Stop Blocked \<longrightarrow> ctx_err w' = None)"
  proof cases
    case cancelled
    then show ?thesis
      using st inv Run_step_cancelled[OF cancelled, of c]
      by (auto simp: run_inv_def held_def split: option.splits)
  next
    case failed
    note f = Run_step_dial_failed[OF failed st]
    from dc[OF failed(1)] inv f(1,3,6,7) show ?thesis
      by (auto simp: run_inv_def held_def consistent_def)
  next
    case ok
    from Run_step_dial_ok[OF ok st] obtain w1 out where
      w1: "open_conns w1 = open_conns w @ [k]" "ctx_err w1 = None"
      and rl: "readLoop (c\<lparr>conn := Some k, isConnected := True, reconnectCount := 0\<rparr>) w1 = (out, c', w')"
      and s: "st = (case out of Returned u \<Rightarrow> Continue | Blocked \<Rightarrow> Stop Blocked | Panicked \<Rightarrow> Stop Panicked)"
      by blast
    note r = readLoop_facts[OF rl]
    have o: "open_conns w1 = [k]" using w1(1) dc[OF ok(1)] by simp
    show ?thesis
    proof (cases out)
      case (Returned u)
      with r o s show ?thesis
        by (auto simp: run_inv_def held_def consistent_def)
    next
      case Blocked
      with r s show ?thesis by simp
    next
      case Panicked
      with r show ?thesis by simp
    qed
  next
    case none
    from Run_step_no_dial[OF none st] show ?thesis by simp
  qed
  then show "st \<noteq> Stop Panicked"
    and "st = Continue \<Longrightarrow> run_inv c' w'"
    and "st = Stop (Returned e) \<Longrightarrow>
           e = ctx_err w' \<and> e \<noteq> None \<and> conn c' = None \<and> \<not> isConnected c' \<and> open_conns w' = []"
    and "st = Stop Blocked \<Longrightarrow> ctx_err w' = None"
    by blast+
qed

lemma evolves_refl: "evolves w w"
  by (simp add: evolves_def)

lemma evolves_trans: "evolves w w1 \<Longrightarrow> evolves w1 w2 \<Longrightarrow> evolves w w2"
  unfolding evolves_def by blast

lemma evolves_same: "ctx_err w' = ctx_err w \<Longrightarrow> script w' = script w \<Longrightarrow> evolves w w'"
  by (simp add: evolves_def)

lemma evolves_deliver: "evolves w (deliver_cancel w)"
  using deliver_cancel_ctx_keep[of w] deliver_cancel_ctx_origin[of w] deliver_cancel_script_subset[of w]
  unfolding evolves_def by blast

lemma evolves_drop: "ctx_err w' = ctx_err w \<Longrightarrow> script w = e # script w' \<Longrightarrow> evolves w w'"
  by (auto simp: evolves_def)

lemma computeBackoff_evolves: "evolves w (snd (computeBackoff c w))"
  using computeBackoff_world[of c w] by (auto intro: evolves_same evolves_refl)

lemma connect_evolves:
  assumes "connect c w = (r, c', w')"
  shows "evolves w w'"
proof -
  let ?w0 = "deliver_cancel (log_append Info ''connecting to jetstream'' [(''url'', LString (URL (config c)))] w)"
  have 1: "evolves w ?w0"
    by (rule evolves_trans[OF evolves_same evolves_deliver]) simp_all
  have "evolves ?w0 w'"
    using assms
    by (auto simp: connect_def Let_def intro!: evolves_refl evolves_drop
             split: list.splits event.splits sum.splits)
  with 1 show ?thesis by (rule evolves_trans)
qed

lemma readLoop_evolves:
  assumes "readLoop c w = (out, c', w')"
  shows "evolves w w'"
proof -
  note f = readLoop_facts[OF assms]
  have 1: "\<forall>e. ctx_err w = Some e \<longrightarrow> ctx_err w' = Some e" using f by simp
  have 2: "\<forall>e. ctx_err w' = Some e \<longrightarrow> ctx_err w = Some e \<or> EvCancel e \<in> set (script w)"
    using f by blast
  have 3: "set (script w') \<subseteq> set (script w)" using f by blast
  from 1 2 3 show ?thesis unfolding evolves_def by blast
qed

lemma Run_step_evolves:
  assumes st: "Run_step c w = (st, c', w')"
  shows "evolves w w'"
proof -
  let ?w0 = "deliver_cancel w"
  have e0: "evolves w ?w0" by (rule evolves_deliver)
  show ?thesis
  proof (cases "ctx_err ?w0 \<noteq> None")
    case True
    have "evolves ?w0 w'"
      using st Run_step_cancelled[OF True, of c] by (auto intro: evolves_same)
    with e0 show ?thesis by (rule evolves_trans)
  next
    case False
    then have nc: "ctx_err ?w0 = None" by simp
    obtain r c1 w1 where cn: "connect c ?w0 = (r, c1, w1)" by (cases "connect c ?w0")
    have e1: "evolves w w1" using e0 connect_evolves[OF cn] by (rule evolves_trans)
    show ?thesis
    proof (cases r)
      case Blocked
      with st nc cn have "w' = w1" by (simp add: Run_step_def Let_def)
      with e1 show ?thesis by simp
    next
      case Panicked
      with st nc cn have "w' = w1" by (simp add: Run_step_def Let_def)
      with e1 show ?thesis by simp
    next
      case (Returned x)
      show ?thesis
      proof (cases x)
        case None
        obtain out c2 w2 where rl: "readLoop (c1\<lparr>reconnectCount := 0\<rparr>) w1 = (out, c2, w2)"
          by (cases "readLoop (c1\<lparr>reconnectCount := 0\<rparr>) w1")
        with st nc cn Returned None have "w' = w2"
          by (auto simp: Run_step_def Let_def split: outcome.splits)
        with readLoop_evolves[OF rl] have "evolves w1 w'" by simp
        with e1 show ?thesis by (rule evolves_trans)
      next
        case (Some err)
        let ?w2 = "log_append Warn ''jetstream connection failed''
               [(''error'', LString (error_msg err)), (''attempt'', LInt (sint (reconnectCount c1 + 1)))] w1"
        obtain d w3 where cb: "computeBackoff c1 ?w2 = (d, w3)" by (cases "computeBackoff c1 ?w2")
        let ?w4 = "(log_append Info ''scheduling reconnect''
               [(''delay'', LDuration d), (''attempt'', LInt (sint (reconnectCount c1 + 1)))] w3)
               \<lparr>waits := waits w3 @ [d]\<rparr>"
        have "evolves w1 ?w2" by (rule evolves_same) simp_all
        moreover have "evolves ?w2 w3" using computeBackoff_evolves[of ?w2 c1] cb by simp
        moreover have "evolves w3 ?w4" by (rule evolves_same) simp_all
        moreover have "evolves ?w4 (deliver_cancel ?w4)" by (rule evolves_deliver)
        ultimately have e5: "evolves w (deliver_cancel ?w4)"
          using e1 by (meson evolves_trans)
        have "evolves (deliver_cancel ?w4) w'"
          using st nc cn Returned Some cb
          by (auto simp: Run_step_def Let_def intro!: evolves_refl evolves_drop
                   split: list.splits event.splits if_splits)
        with e5 show ?thesis by (rule evolves_trans)
      qed
    qed
  qed
qed

lemma Run_unfold:
  "Run_step c w = (Continue, c1, w1) \<Longrightarrow> Run c w = Run c1 w1"
  "Run_step c w = (Stop out, c1, w1) \<Longrightarrow> Run c w = (out, c1, w1)"
  by (simp_all add: Run.simps[of c w])

lemma Run_facts:
  "run_inv c w \<Longrightarrow> Run c w = (out, c', w') \<Longrightarrow>
     out \<noteq> Panicked \<and> evolves w w'
   \<and> (\<forall>e. out = Returned e \<longrightarrow>
          e = ctx_err w' \<and> e \<noteq> None \<and> conn c' = None \<and> \<not> isConnected c' \<and> open_conns w' = [])
   \<and> (out = Blocked \<longrightarrow> ctx_err w' = None)"
proof (induction c w arbitrary: out c' w' rule: Run.induct)
  case (1 c w)
  obtain st c1 w1 where st: "Run_step c w = (st, c1, w1)" by (cases "Run_step c w")
  note inv = Run_step_inv[OF "1.prems"(1) st] and ev = Run_step_evolves[OF st]
  show ?case
  proof (cases st)
    case Continue
    with st have "Run c w = Run c1 w1" by (intro Run_unfold(1)) simp
    with "1.prems" have r: "Run c1 w1 = (out, c', w')" by simp
    have "run_inv c1 w1" using inv(2) Continue by simp
    note ih = "1.IH"[OF st[symmetric] Continue refl this r]
    from ih have "evolves w1 w'" by simp
    with ev have "evolves w w'" by (rule evolves_trans)
    with ih show ?thesis by simp
  next
    case (Stop o')
    with st have "Run c w = (o', c1, w1)" by (intro Run_unfold(2)) simp
    with "1.prems" have eq: "out = o'" "c' = c1" "w' = w1" by simp_all
    show ?thesis using inv(1,3,4) ev Stop eq by auto
  qed
qed

lemma consistent_count [simp]: "consistent (c\<lparr>reconnectCount := n\<rparr>) = consistent c"
  by (simp add: consistent_def)

lemma consistent_closed [simp]: "consistent (c\<lparr>conn := None, isConnected := False\<rparr>)"
  by (simp add: consistent_def)

lemma consistent_connected [simp]: "consistent (c\<lparr>conn := Some k, isConnected := True\<rparr>)"
  by (simp add: consistent_def)

lemma connect_client:
  assumes "connect c w = (r, c', w')"
  shows "case r of
           Returned (Some err) \<Rightarrow> c' = c \<and> next_event w = Some (EvDial (Inl err))
         | Returned None \<Rightarrow> (\<exists>k. next_event w = Some (EvDial (Inr k)) \<and> c' = c\<lparr>conn := Some k, isConnected := True\<rparr>)
         | _ \<Rightarrow> c' = c"
  using assms
  by (auto simp: connect_cases split: option.splits event.splits sum.splits)

lemma readLoop_step_consistent:
  assumes "consistent c" "readLoop_step c w = (st, c', w')"
  shows "consistent c'"
proof (cases st)
  case Continue
  with readLoop_step_facts(8)[OF assms(2)] assms(1) show ?thesis by simp
next
  case (Stop out)
  show ?thesis
  proof (cases out)
    case (Returned u)
    with Stop readLoop_step_facts(9)[OF assms(2), of u] assms(1) show ?thesis by auto
  next
    case Blocked
    with Stop readLoop_step_facts(11)[OF assms(2)] assms(1) show ?thesis by simp
  next
    case Panicked
    then have "c' = c"
      using assms(2) Stop
      by (auto simp: readLoop_step_def Let_def close_eq
           split: if_splits option.splits list.splits event.splits sum.splits prod.splits)
    with assms(1) show ?thesis by simp
  qed
qed

lemma readLoop_consistent:
  "consistent c \<Longrightarrow> readLoop c w = (out, c', w') \<Longrightarrow> consistent c'"
proof (induction c w arbitrary: out c' w' rule: readLoop.induct)
  case (1 c w)
  obtain st c1 w1 where st: "readLoop_step c w = (st, c1, w1)" by (cases "readLoop_step c w")
  have c1: "consistent c1" using "1.prems"(1) st by (rule readLoop_step_consistent)
  show ?case
  proof (cases st)
    case Continue
    with st have "readLoop c w = readLoop c1 w1" by (intro readLoop_unfold(1)) simp
    with "1.prems" have "readLoop c1 w1 = (out, c', w')" by simp
    from "1.IH"[OF st[symmetric] Continue refl c1 this] show ?thesis .
  next
    case (Stop o')
    with st have "readLoop c w = (o', c1, w1)" by (intro readLoop_unfold(2)) simp
    with "1.prems" c1 show ?thesis by simp
  qed
qed

lemma Run_step_consistent:
  assumes "consistent c" "Run_step c w = (st, c', w')"
  shows "consistent c'"
proof -
  consider (cancelled) "ctx_err (deliver_cancel w) \<noteq> None"
    | (failed) err where "ctx_err (deliver_cancel w) = None" "next_event w = Some (EvDial (Inl err))"
    | (ok) k where "ctx_err (deliver_cancel w) = None" "next_event w = Some (EvDial (Inr k))"
    | (none) "ctx_err (deliver_cancel w) = None" "\<forall>r. next_event w \<noteq> Some (EvDial r)"
    using Run_step_kinds[of w] by blast
  then show ?thesis
  proof cases
    case cancelled
    with assms(2) Run_step_cancelled[OF cancelled, of c] show ?thesis by auto
  next
    case failed
    with Run_step_dial_failed(1)[OF failed assms(2)] assms(1) show ?thesis by simp
  next
    case ok
    from Run_step_dial_ok[OF ok assms(2)] obtain w1 out where
      "readLoop (c\<lparr>conn := Some k, isConnected := True, reconnectCount := 0\<rparr>) w1 = (out, c', w')"
      by blast
    moreover have "consistent (c\<lparr>conn := Some k, isConnected := True, reconnectCount := 0\<rparr>)"
      by (simp add: consistent_def)
    ultimately show ?thesis by (rule readLoop_consistent[rotated])
  next
    case none
    with Run_step_no_dial(2)[OF none assms(2)] assms(1) show ?thesis by simp
  qed
qed

lemma Run_consistent:
  "consistent c \<Longrightarrow> Run c w = (out, c', w') \<Longrightarrow> consistent c'"
proof (induction c w arbitrary: out c' w' rule: Run.induct)
  case (1 c w)
  obtain st c1 w1 where st: "Run_step c w = (st, c1, w1)" by (cases "Run_step c w")
  have c1: "consistent c1" using "1.prems"(1) st by (rule Run_step_consistent)
  show ?case
  proof (cases st)
    case Continue
    with st have "Run c w = Run c1 w1" by (intro Run_unfold(1)) simp
    with "1.prems" have "Run c1 w1 = (out, c', w')" by simp
    from "1.IH"[OF st[symmetric] Continue refl c1 this] show ?thesis .
  next
    case (Stop o')
    with st have "Run c w = (o', c1, w1)" by (intro Run_unfold(2)) simp
    with "1.prems" c1 show ?thesis by simp
  qed
qed

lemma Run_step_returns:
  assumes "Run_step c w = (Stop (Returned e), c', w')"
  shows "e = ctx_err w' \<and> e \<noteq> None"
proof -
  consider (cancelled) "ctx_err (deliver_cancel w) \<noteq> None"
    | (failed) err where "ctx_err (deliver_cancel w) = None" "next_event w = Some (EvDial (Inl err))"
    | (ok) k where "ctx_err (deliver_cancel w) = None" "next_event w = Some (EvDial (Inr k))"
    | (none) "ctx_err (deliver_cancel w) = None" "\<forall>r. next_event w \<noteq> Some (EvDial r)"
    using Run_step_kinds[of w] by blast
  then show ?thesis
  proof cases
    case cancelled
    with assms Run_step_cancelled[OF cancelled, of c] show ?thesis by auto
  next
    case failed
    from Run_step_dial_failed(6)[OF failed assms] show ?thesis by auto
  next
    case ok
    from Run_step_dial_ok[OF ok assms] obtain out :: "unit outcome" where
      "Stop (Returned e) = (case out of Returned u \<Rightarrow> Continue | Blocked \<Rightarrow> Stop Blocked | Panicked \<Rightarrow> Stop Panicked)"
      by blast
    then show ?thesis by (cases out) simp_all
  next
    case none
    from Run_step_no_dial(1)[OF none assms] show ?thesis by simp
  qed
qed

lemma Run_returns:
  "Run c w = (Returned e, c', w') \<Longrightarrow> e = ctx_err w' \<and> e \<noteq> None"
proof (induction c w arbitrary: e c' w' rule: Run.induct)
  case (1 c w)
  obtain st c1 w1 where st: "Run_step c w = (st, c1, w1)" by (cases "Run_step c w")
  show ?case
  proof (cases st)
    case Continue
    with st have "Run c w = Run c1 w1" by (intro Run_unfold(1)) simp
    with "1.prems" have "Run c1 w1 = (Returned e, c', w')" by simp
    from "1.IH"[OF st[symmetric] Continue refl this] show ?thesis .
  next
    case (Stop o')
    with st have "Run c w = (o', c1, w1)" by (intro Run_unfold(2)) simp
    with "1.prems" have "o' = Returned e" "c1 = c'" "w1 = w'" by simp_all
    with st Stop show ?thesis using Run_step_returns by blast
  qed
qed

lemma readLoop_step_handler_error:
  assumes "ctx_err (deliver_cancel w) = None" and "conn c = Some k"
    and "next_event w = Some (EvRead (Inr (mt, p)))"
    and "handler c = Some h" and "h mt p (hstate w) = (Some err, hs)"
  shows "\<exists>w'. readLoop_step c w = (Stop (Returned ()), c\<lparr>conn := None, isConnected := False\<rparr>, w')
            \<and> open_conns w' = remove1 k (open_conns w)
            \<and> logs w' = logs w @ [(Err, ''message handler error'', [(''error'', LString (error_msg err))])]
            \<and> waits w' = waits w \<and> hstate w' = hs"
  using assms
  by (auto simp: readLoop_step_def next_event_def Let_def close_eq split: list.splits)

lemma readLoop_step_read_error:
  assumes "ctx_err (deliver_cancel w) = None" and "conn c = Some k"
    and "next_event w = Some (EvRead (Inl err))"
  shows "\<exists>w'. readLoop_step c w = (Stop (Returned ()), c\<lparr>conn := None, isConnected := False\<rparr>, w')
            \<and> open_conns w' = remove1 k (open_conns w)
            \<and> logs w' = logs w @ [(Warn, ''jetstream connection closed'', [(''error'', LString (error_msg err))])]
            \<and> waits w' = waits w \<and> hstate w' = hstate w"
  using assms
  by (auto simp: readLoop_step_def next_event_def Let_def close_eq split: list.splits)

lemma readLoop_step_nil_handler:
  assumes "handler c = None" "readLoop_step c w = (st, c', w')"
  shows "hstate w' = hstate w"
    and "st = Stop (Returned ()) \<Longrightarrow> ctx_err w' \<noteq> None \<or> (\<exists>err. EvRead (Inl err) \<in> set (script w))"
proof -
  have "hstate w' = hstate w
      \<and> (st = Stop (Returned ()) \<longrightarrow> ctx_err w' \<noteq> None \<or> (\<exists>err. EvRead (Inl err) \<in> set (script (deliver_cancel w))))"
    using assms
    by (auto simp: readLoop_step_def Let_def close_eq
           split: if_splits option.splits list.splits event.splits sum.splits prod.splits)
  then show "hstate w' = hstate w"
    and "st = Stop (Returned ()) \<Longrightarrow> ctx_err w' \<noteq> None \<or> (\<exists>err. EvRead (Inl err) \<in> set (script w))"
    using deliver_cancel_script_subset[of w] by blast+
qed

lemma readLoop_nil_handler:
  "handler c = None \<Longrightarrow> readLoop c w = (out, c', w') \<Longrightarrow>
     hstate w' = hstate w
   \<and> (out = Returned () \<longrightarrow> ctx_err w' \<noteq> None \<or> (\<exists>err. EvRead (Inl err) \<in> set (script w)))"
proof (induction c w arbitrary: out c' w' rule: readLoop.induct)
  case (1 c w)
  obtain st c1 w1 where st: "readLoop_step c w = (st, c1, w1)" by (cases "readLoop_step c w")
  note n = readLoop_step_nil_handler[OF "1.prems"(1) st]
  show ?case
  proof (cases st)
    case Continue
    with st have "readLoop c w = readLoop c1 w1" by (intro readLoop_unfold(1)) simp
    with "1.prems" have r: "readLoop c1 w1 = (out, c', w')" by simp
    have h: "handler c1 = None" using readLoop_step_facts(3)[OF st] "1.prems"(1) by simp
    from "1.IH"[OF st[symmetric] Continue refl h r] n(1) readLoop_step_script[OF st]
    show ?thesis by auto
  next
    case (Stop o')
    with st have "readLoop c w = (o', c1, w1)" by (intro readLoop_unfold(2)) simp
    with "1.prems" have "out = o'" "c' = c1" "w' = w1" by simp_all
    with n Stop show ?thesis by auto
  qed
qed

lemma Run_step_waits:
  assumes "Run_step c w = (st, c', w')"
  shows "if ctx_err (deliver_cancel w) = None \<and> (\<exists>err. next_event w = Some (EvDial (Inl err)))
         then waits w' = waits w @ [fst (computeBackoff c w)]
         else waits w' = waits w"
proof -
  consider (cancelled) "ctx_err (deliver_cancel w) \<noteq> None"
    | (failed) err where "ctx_err (deliver_cancel w) = None" "next_event w = Some (EvDial (Inl err))"
    | (ok) k where "ctx_err (deliver_cancel w) = None" "next_event w = Some (EvDial (Inr k))"
    | (none) "ctx_err (deliver_cancel w) = None" "\<forall>r. next_event w \<noteq> Some (EvDial r)"
    using Run_step_kinds[of w] by blast
  then show ?thesis
  proof cases
    case cancelled
    with assms Run_step_cancelled[OF cancelled, of c] show ?thesis by auto
  next
    case failed
    with Run_step_dial_failed(2)[OF failed assms] show ?thesis by auto
  next
    case ok
    from Run_step_dial_ok[OF ok assms] obtain w1 out where
      "waits w1 = waits w" "readLoop (c\<lparr>conn := Some k, isConnected := True, reconnectCount := 0\<rparr>) w1 = (out, c', w')"
      by blast
    with readLoop_facts[OF this(2)] ok show ?thesis by simp
  next
    case none
    with Run_step_no_dial(3)[OF none assms] show ?thesis by auto
  qed
qed

lemma connect_locked_last:
  "connect c w = (Returned None, c', w') \<Longrightarrow> \<exists>k. snd (last (connect_locked c k)) = c'"
  by (drule connect_client) (auto simp: connect_locked_def)

lemma close_locked_last: "snd (last (close_locked c)) = fst (close c w)"
  by (cases "conn c") (simp_all add: close_locked_def close_def Let_def)

lemma locked_consistent:
  "\<forall>(held, s) \<in> set (connect_locked c k). \<not> held \<longrightarrow> consistent s"
  "\<forall>(held, s) \<in> set (close_locked c). \<not> held \<longrightarrow> consistent s"
  by (auto simp: connect_locked_def close_locked_def Let_def consistent_def split: option.splits)

section \<open>Claims about the connection driver\<close>

lemmas eval_defs = fresh_client_def world_of_def example_config_def Run_step_def connect_def
  readLoop_step_def close_def deliver_cancel_def log_append_def next_event_def Let_def

text \<open>
  Claim C2. For a client that holds no connection (as \<^verbatim>\<open>NewClient\<close> returns it, and as \<^verbatim>\<open>Run\<close>
  leaves it), \<^verbatim>\<open>Run\<close> returns only once the cancellation of the context has been observed,
  and what it returns is the context's error, the reason of that cancellation (the one
  the context already had, or the one a cancellation event brought). At that moment the
  handle is nil, the flag is false and no connection is left open. \<^verbatim>\<open>Run\<close> never panics;
  while it has not returned, no cancellation has been observed; and with no cancellation
  at all it never returns, whatever the dials, reads and handler do.
\<close>

theorem Run_returns_on_cancellation:
  fixes c :: "'h Client"
  assumes "conn c = None" and "\<not> isConnected c" and "open_conns w = []"
    and "Run c w = (out, c', w')"
  shows "out \<noteq> Panicked
       \<and> (\<forall>e. out = Returned e \<longrightarrow>
            e = ctx_err w'
          \<and> (\<exists>r. e = Some r \<and> (ctx_err w = Some r \<or> (ctx_err w = None \<and> EvCancel r \<in> set (script w))))
          \<and> conn c' = None \<and> \<not> isConnected c' \<and> open_conns w' = [])
       \<and> (out = Blocked \<longrightarrow> ctx_err w' = None)
       \<and> (ctx_err w = None \<and> (\<forall>r. EvCancel r \<notin> set (script w)) \<longrightarrow> out = Blocked)"
proof -
  have inv: "run_inv c w" using assms(1,2,3) by (simp add: run_inv_def consistent_def held_def)
  note f = Run_facts[OF inv assms(4)]
  have origin: "ctx_err w = Some r \<or> (ctx_err w = None \<and> EvCancel r \<in> set (script w))"
    if "ctx_err w' = Some r" for r
    using f that unfolding evolves_def by (cases "ctx_err w") auto
  have ret: "e = ctx_err w'
          \<and> (\<exists>r. e = Some r \<and> (ctx_err w = Some r \<or> (ctx_err w = None \<and> EvCancel r \<in> set (script w))))
          \<and> conn c' = None \<and> \<not> isConnected c' \<and> open_conns w' = []" if "out = Returned e" for e
  proof -
    from f that have e: "e = ctx_err w'" "e \<noteq> None" "conn c' = None" "\<not> isConnected c'" "open_conns w' = []"
      by blast+
    then obtain r where r: "e = Some r" by auto
    with e(1) origin[of r] have "ctx_err w = Some r \<or> (ctx_err w = None \<and> EvCancel r \<in> set (script w))"
      by simp
    with e r show ?thesis by blast
  qed
  have blocked: "out = Blocked" if "ctx_err w = None \<and> (\<forall>r. EvCancel r \<notin> set (script w))"
  proof (cases out)
    case (Returned e)
    from ret[OF this] that show ?thesis by auto
  next
    case Panicked
    with f show ?thesis by simp
  qed simp
  from f ret blocked show ?thesis by blast
qed

theorem Run_returns_on_cancellation_witness:
  "conn (fresh_client example_config) = None \<and> \<not> isConnected (fresh_client example_config)
   \<and> open_conns (world_of (Fin 0)
        [EvDial (Inr 7), EvRead (Inr (1, [])), EvCancel (Error ''context canceled'')]) = []
   \<and> (\<exists>c' w'. Run (fresh_client example_config)
                  (world_of (Fin 0) [EvDial (Inr 7), EvRead (Inr (1, [])), EvCancel (Error ''context canceled'')])
               = (Returned (Some (Error ''context canceled'')), c', w')
            \<and> ctx_err w' = Some (Error ''context canceled'')
            \<and> conn c' = None \<and> \<not> isConnected c' \<and> open_conns w' = [])"
proof -
  let ?c = "fresh_client example_config"
  let ?w = "world_of (Fin 0) [EvDial (Inr 7), EvRead (Inr (1, [])), EvCancel (Error ''context canceled'')]"
  obtain out c' w' where r: "Run ?c ?w = (out, c', w')" by (cases "Run ?c ?w")
  have h: "conn ?c = None" "\<not> isConnected ?c" "open_conns ?w = []"
    by (simp_all add: fresh_client_def world_of_def)
  have out: "out = Returned (Some (Error ''context canceled''))"
    using r by (simp add: Run.simps readLoop.simps eval_defs)
  from Run_returns_on_cancellation[OF h r] out
  have "ctx_err w' = Some (Error ''context canceled'') \<and> conn c' = None \<and> \<not> isConnected c' \<and> open_conns w' = []"
    by simp
  with r out h show ?thesis by blast
qed

text \<open>
  Claim C5. In an iteration of \<^verbatim>\<open>Run\<close> whose dial fails, the delay waited for is
  \<^verbatim>\<open>computeBackoff\<close> of the client before the increment, and the counter grows by exactly
  one. In an iteration whose dial succeeds the read loop starts with the counter at
  zero and the counter is zero afterwards. The read loop never changes the counter,
  however it ends. So when a dial succeeds and the next dial fails, the delay of that
  failure is computed with attempt count 0 and the counter is then 1, whatever the
  counter was before the success.
\<close>

theorem counter_counts_dial_failures:
  fixes c :: "'h Client"
  shows "(\<forall>err st c' w'. ctx_err (deliver_cancel w) = None \<and> next_event w = Some (EvDial (Inl err))
            \<and> Run_step c w = (st, c', w') \<longrightarrow>
            reconnectCount c' = reconnectCount c + 1
          \<and> waits w' = waits w @ [fst (computeBackoff c w)])
       \<and> (\<forall>k st c' w'. ctx_err (deliver_cancel w) = None \<and> next_event w = Some (EvDial (Inr k))
            \<and> Run_step c w = (st, c', w') \<longrightarrow>
            reconnectCount c' = 0
          \<and> (\<exists>w1 out. readLoop (c\<lparr>conn := Some k, isConnected := True, reconnectCount := 0\<rparr>) w1
                          = (out, c', w')))
       \<and> (\<forall>out c' w'. readLoop c w = (out, c', w') \<longrightarrow> reconnectCount c' = reconnectCount c)
       \<and> (\<forall>k c1 w1 err st c2 w2.
            ctx_err (deliver_cancel w) = None \<and> next_event w = Some (EvDial (Inr k))
            \<and> Run_step c w = (Continue, c1, w1)
            \<and> ctx_err (deliver_cancel w1) = None \<and> next_event w1 = Some (EvDial (Inl err))
            \<and> Run_step c1 w1 = (st, c2, w2) \<longrightarrow>
            waits w2 = waits w1 @ [fst (computeBackoff (c1\<lparr>reconnectCount := 0\<rparr>) w1)]
          \<and> reconnectCount c2 = 1)"
proof -
  have ok: "reconnectCount c' = 0
          \<and> (\<exists>w1 out. readLoop (c\<lparr>conn := Some k, isConnected := True, reconnectCount := 0\<rparr>) w1
                          = (out, c', w'))"
    if "ctx_err (deliver_cancel w) = None" "next_event w = Some (EvDial (Inr k))"
       "Run_step c w = (st, c', w')" for k st c' w'
  proof -
    from Run_step_dial_ok[OF that] obtain w1 out where
      r: "readLoop (c\<lparr>conn := Some k, isConnected := True, reconnectCount := 0\<rparr>) w1 = (out, c', w')"
      by blast
    from readLoop_facts[OF r] have "reconnectCount c' = 0" by simp
    with r show ?thesis by blast
  qed
  have two: "waits w2 = waits w1 @ [fst (computeBackoff (c1\<lparr>reconnectCount := 0\<rparr>) w1)]
          \<and> reconnectCount c2 = 1"
    if "ctx_err (deliver_cancel w) = None" "next_event w = Some (EvDial (Inr k))"
       "Run_step c w = (Continue, c1, w1)"
       "ctx_err (deliver_cancel w1) = None" "next_event w1 = Some (EvDial (Inl err))"
       "Run_step c1 w1 = (st, c2, w2)" for k c1 w1 err st c2 w2
  proof -
    from ok[OF that(1,2,3)] have z: "reconnectCount c1 = 0" by simp
    then have eq: "c1\<lparr>reconnectCount := 0\<rparr> = c1" by (cases c1) simp
    from Run_step_dial_failed(1,2)[OF that(4,5,6)] z show ?thesis unfolding eq by simp
  qed
  show ?thesis
  proof (intro conjI allI impI)
    fix err st c' w'
    assume a: "ctx_err (deliver_cancel w) = None \<and> next_event w = Some (EvDial (Inl err))
            \<and> Run_step c w = (st, c', w')"
    then have a': "ctx_err (deliver_cancel w) = None" "next_event w = Some (EvDial (Inl err))"
      "Run_step c w = (st, c', w')" by simp_all
    from Run_step_dial_failed(1,2)[OF a']
    show "reconnectCount c' = reconnectCount c + 1" "waits w' = waits w @ [fst (computeBackoff c w)]"
      by simp_all
  next
    fix k st c' w'
    assume a: "ctx_err (deliver_cancel w) = None \<and> next_event w = Some (EvDial (Inr k))
            \<and> Run_step c w = (st, c', w')"
    then have a': "ctx_err (deliver_cancel w) = None" "next_event w = Some (EvDial (Inr k))"
      "Run_step c w = (st, c', w')" by simp_all
    from ok[OF a'] show "reconnectCount c' = 0"
      "\<exists>w1 out. readLoop (c\<lparr>conn := Some k, isConnected := True, reconnectCount := 0\<rparr>) w1
                          = (out, c', w')" by simp_all
  next
    fix out c' w'
    assume "readLoop c w = (out, c', w')"
    from readLoop_facts[OF this] show "reconnectCount c' = reconnectCount c" by simp
  next
    fix k c1 w1 err st c2 w2
    assume a: "ctx_err (deliver_cancel w) = None \<and> next_event w = Some (EvDial (Inr k))
            \<and> Run_step c w = (Continue, c1, w1)
            \<and> ctx_err (deliver_cancel w1) = None \<and> next_event w1 = Some (EvDial (Inl err))
            \<and> Run_step c1 w1 = (st, c2, w2)"
    then have a': "ctx_err (deliver_cancel w) = None" "next_event w = Some (EvDial (Inr k))"
       "Run_step c w = (Continue, c1, w1)"
       "ctx_err (deliver_cancel w1) = None" "next_event w1 = Some (EvDial (Inl err))"
       "Run_step c1 w1 = (st, c2, w2)" by simp_all
    from two[OF a'] show "waits w2 = waits w1 @ [fst (computeBackoff (c1\<lparr>reconnectCount := 0\<rparr>) w1)]"
      "reconnectCount c2 = 1" by simp_all
  qed
qed

theorem counter_counts_dial_failures_witness:
  "\<exists>c1 w1 st c2 w2.
      ctx_err (deliver_cancel (world_of (Fin 0)
        [EvDial (Inr 7), EvRead (Inl (Error ''EOF'')), EvDial (Inl (Error ''refused'')), EvTimer])) = None
    \<and> next_event (world_of (Fin 0)
        [EvDial (Inr 7), EvRead (Inl (Error ''EOF'')), EvDial (Inl (Error ''refused'')), EvTimer])
        = Some (EvDial (Inr 7))
    \<and> Run_step ((fresh_client example_config)\<lparr>reconnectCount := 3\<rparr>)
          (world_of (Fin 0)
             [EvDial (Inr 7), EvRead (Inl (Error ''EOF'')), EvDial (Inl (Error ''refused'')), EvTimer])
        = (Continue, c1, w1)
    \<and> ctx_err (deliver_cancel w1) = None \<and> next_event w1 = Some (EvDial (Inl (Error ''refused'')))
    \<and> Run_step c1 w1 = (st, c2, w2)
    \<and> reconnectCount c1 = 0 \<and> reconnectCount c2 = 1
    \<and> waits w2 = [Some 100000000]"
proof -
  let ?c = "(fresh_client example_config)\<lparr>reconnectCount := 3\<rparr>"
  let ?w = "world_of (Fin 0)
             [EvDial (Inr 7), EvRead (Inl (Error ''EOF'')), EvDial (Inl (Error ''refused'')), EvTimer]"
  obtain st1 c1 w1 where r1: "Run_step ?c ?w = (st1, c1, w1)" by (cases "Run_step ?c ?w")
  obtain st c2 w2 where r2: "Run_step c1 w1 = (st, c2, w2)" by (cases "Run_step c1 w1")
  have h: "ctx_err (deliver_cancel ?w) = None" "next_event ?w = Some (EvDial (Inr 7))"
    by (simp_all add: eval_defs)
  have s1: "st1 = Continue" "ctx_err (deliver_cancel w1) = None"
    "next_event w1 = Some (EvDial (Inl (Error ''refused'')))" "waits w1 = []"
    "config c1 = example_config" "rng w1 = const_rng (Fin 0)"
    using r1 by (auto simp: readLoop.simps eval_defs)
  note t = counter_counts_dial_failures[of ?w ?c]
  from t h r1 have z: "reconnectCount c1 = 0" by blast
  from t h r1 s1 r2
  have two: "waits w2 = waits w1 @ [fst (computeBackoff (c1\<lparr>reconnectCount := 0\<rparr>) w1)]
          \<and> reconnectCount c2 = 1"
    by blast
  have "computeBackoff (c1\<lparr>reconnectCount := 0\<rparr>) w1 = (Some 100000000, w1)"
    using computeBackoff_no_jitter[of "c1\<lparr>reconnectCount := 0\<rparr>" w1] s1(5)
    by (simp add: example_config_def)
  with two s1(4) have "waits w2 = [Some 100000000]" "reconnectCount c2 = 1" by simp_all
  with h r1 r2 s1 z show ?thesis by blast
qed

text \<open>
  Claim C6. In an iteration of \<^verbatim>\<open>Run\<close> whose dial succeeds, no delay is waited for,
  however the read loop ends, and when the read loop returns the iteration continues
  with the next one (\<^verbatim>\<open>Run\<close> goes on from the state the read loop left). The read loop
  itself waits for no delay. An iteration waits for a delay exactly when its dial has
  failed, and then for one delay.
\<close>

theorem no_backoff_after_read_loop:
  fixes c :: "'h Client"
  shows "(\<forall>k st c' w'. ctx_err (deliver_cancel w) = None \<and> next_event w = Some (EvDial (Inr k))
            \<and> Run_step c w = (st, c', w') \<longrightarrow>
            waits w' = waits w
          \<and> (\<exists>w1 out. readLoop (c\<lparr>conn := Some k, isConnected := True, reconnectCount := 0\<rparr>) w1
                          = (out, c', w')
                \<and> waits w1 = waits w
                \<and> (out = Returned () \<longrightarrow> st = Continue \<and> Run c w = Run c' w')))
       \<and> (\<forall>out c' w'. readLoop c w = (out, c', w') \<longrightarrow> waits w' = waits w)
       \<and> (\<forall>st c' w'. Run_step c w = (st, c', w') \<longrightarrow>
            (if ctx_err (deliver_cancel w) = None \<and> (\<exists>err. next_event w = Some (EvDial (Inl err)))
             then waits w' = waits w @ [fst (computeBackoff c w)]
             else waits w' = waits w))"
proof (intro conjI allI impI)
  fix k st c' w'
  assume a: "ctx_err (deliver_cancel w) = None \<and> next_event w = Some (EvDial (Inr k))
            \<and> Run_step c w = (st, c', w')"
  then have a': "ctx_err (deliver_cancel w) = None" "next_event w = Some (EvDial (Inr k))"
      "Run_step c w = (st, c', w')" by simp_all
  from Run_step_dial_ok[OF a'] obtain w1 out where
    w1: "waits w1 = waits w"
    and r: "readLoop (c\<lparr>conn := Some k, isConnected := True, reconnectCount := 0\<rparr>) w1 = (out, c', w')"
    and s: "st = (case out of Returned u \<Rightarrow> Continue | Blocked \<Rightarrow> Stop Blocked | Panicked \<Rightarrow> Stop Panicked)"
    by blast
  from readLoop_facts[OF r] w1 show "waits w' = waits w" by simp
  have "out = Returned () \<longrightarrow> st = Continue \<and> Run c w = Run c' w'"
  proof
    assume "out = Returned ()"
    with s have "st = Continue" by simp
    with a'(3) show "st = Continue \<and> Run c w = Run c' w'" using Run_unfold(1) by blast
  qed
  with r w1 show "\<exists>w1 out. readLoop (c\<lparr>conn := Some k, isConnected := True, reconnectCount := 0\<rparr>) w1
                          = (out, c', w')
                \<and> waits w1 = waits w
                \<and> (out = Returned () \<longrightarrow> st = Continue \<and> Run c w = Run c' w')"
    by blast
next
  fix out c' w'
  assume "readLoop c w = (out, c', w')"
  from readLoop_facts[OF this] show "waits w' = waits w" by simp
next
  fix st c' w'
  assume "Run_step c w = (st, c', w')"
  then show "if ctx_err (deliver_cancel w) = None \<and> (\<exists>err. next_event w = Some (EvDial (Inl err)))
             then waits w' = waits w @ [fst (computeBackoff c w)]
             else waits w' = waits w"
    by (rule Run_step_waits)
qed

theorem no_backoff_after_read_loop_witness:
  "\<exists>st c' w'.
      ctx_err (deliver_cancel (world_of (Fin 0)
        [EvDial (Inr 7), EvRead (Inl (Error ''EOF'')), EvDial (Inr 8)])) = None
    \<and> next_event (world_of (Fin 0) [EvDial (Inr 7), EvRead (Inl (Error ''EOF'')), EvDial (Inr 8)])
        = Some (EvDial (Inr 7))
    \<and> Run_step (fresh_client example_config)
          (world_of (Fin 0) [EvDial (Inr 7), EvRead (Inl (Error ''EOF'')), EvDial (Inr 8)])
        = (st, c', w')
    \<and> st = Continue \<and> waits w' = [] \<and> script w' = [EvDial (Inr 8)]"
proof -
  let ?c = "fresh_client example_config"
  let ?w = "world_of (Fin 0) [EvDial (Inr 7), EvRead (Inl (Error ''EOF'')), EvDial (Inr 8)]"
  obtain st c' w' where r: "Run_step ?c ?w = (st, c', w')" by (cases "Run_step ?c ?w")
  have h: "ctx_err (deliver_cancel ?w) = None" "next_event ?w = Some (EvDial (Inr 7))"
    by (simp_all add: eval_defs)
  have s: "st = Continue" "script w' = [EvDial (Inr 8)]"
    using r by (auto simp: readLoop.simps eval_defs)
  from no_backoff_after_read_loop[of ?w ?c] h r have "waits w' = waits ?w" by blast
  then have "waits w' = []" by (simp add: world_of_def)
  with h r s show ?thesis by blast
qed

text \<open>
  Claim C7. When the handler returns an error for a message, the read loop closes the
  connection (the handle becomes nil, the flag false, the connection is no longer
  open), writes the error to the log and returns; a failed read is treated the same
  way. What \<^verbatim>\<open>Run\<close> returns is never that error: it is the context's error.
\<close>

theorem handler_error_disconnects:
  assumes "ctx_err (deliver_cancel w) = None" and "conn c = Some k"
    and "next_event w = Some (EvRead (Inr (mt, p)))"
    and "handler c = Some h" and "h mt p (hstate w) = (Some err, hs)"
  shows "(\<exists>w'. readLoop c w = (Returned (), c\<lparr>conn := None, isConnected := False\<rparr>, w')
            \<and> open_conns w' = remove1 k (open_conns w)
            \<and> logs w' = logs w @ [(Err, ''message handler error'', [(''error'', LString (error_msg err))])]
            \<and> waits w' = waits w)
       \<and> (\<forall>v err'. ctx_err (deliver_cancel v) = None \<and> next_event v = Some (EvRead (Inl err')) \<longrightarrow>
            (\<exists>v'. readLoop c v = (Returned (), c\<lparr>conn := None, isConnected := False\<rparr>, v')
                \<and> open_conns v' = remove1 k (open_conns v)
                \<and> logs v' = logs v @ [(Warn, ''jetstream connection closed'', [(''error'', LString (error_msg err'))])]
                \<and> waits v' = waits v))
       \<and> (\<forall>(c0 :: 'h Client) w0 e c1 w1. Run c0 w0 = (Returned e, c1, w1) \<longrightarrow> e = ctx_err w1 \<and> e \<noteq> None)"
proof (intro conjI allI impI)
  from readLoop_step_handler_error[OF assms] obtain w' where
    s: "readLoop_step c w = (Stop (Returned ()), c\<lparr>conn := None, isConnected := False\<rparr>, w')"
    and f: "open_conns w' = remove1 k (open_conns w)"
      "logs w' = logs w @ [(Err, ''message handler error'', [(''error'', LString (error_msg err))])]"
      "waits w' = waits w"
    by blast
  from readLoop_unfold(2)[OF s] f
  show "\<exists>w'. readLoop c w = (Returned (), c\<lparr>conn := None, isConnected := False\<rparr>, w')
            \<and> open_conns w' = remove1 k (open_conns w)
            \<and> logs w' = logs w @ [(Err, ''message handler error'', [(''error'', LString (error_msg err))])]
            \<and> waits w' = waits w"
    by blast
next
  fix v :: "'a world" and err'
  assume a: "ctx_err (deliver_cancel v) = None \<and> next_event v = Some (EvRead (Inl err'))"
  then have a1: "ctx_err (deliver_cancel v) = None" and a2: "next_event v = Some (EvRead (Inl err'))"
    by simp_all
  from readLoop_step_read_error[OF a1 assms(2) a2] obtain v' where
    s: "readLoop_step c v = (Stop (Returned ()), c\<lparr>conn := None, isConnected := False\<rparr>, v')"
    and f: "open_conns v' = remove1 k (open_conns v)"
      "logs v' = logs v @ [(Warn, ''jetstream connection closed'', [(''error'', LString (error_msg err'))])]"
      "waits v' = waits v"
    by blast
  from readLoop_unfold(2)[OF s] f
  show "\<exists>v'. readLoop c v = (Returned (), c\<lparr>conn := None, isConnected := False\<rparr>, v')
                \<and> open_conns v' = remove1 k (open_conns v)
                \<and> logs v' = logs v @ [(Warn, ''jetstream connection closed'', [(''error'', LString (error_msg err'))])]
                \<and> waits v' = waits v"
    by blast
next
  fix c0 :: "'h Client" and w0 e c1 w1
  assume "Run c0 w0 = (Returned e, c1, w1)"
  then show "e = ctx_err w1" "e \<noteq> None" using Run_returns by blast+
qed

theorem handler_error_disconnects_witness:
  "ctx_err (deliver_cancel ((world_of (Fin 0) [EvRead (Inr (1, [104, 105]))])\<lparr>open_conns := [7]\<rparr>)) = None
   \<and> next_event ((world_of (Fin 0) [EvRead (Inr (1, [104, 105]))])\<lparr>open_conns := [7]\<rparr>)
       = Some (EvRead (Inr (1, [104, 105])))
   \<and> reject_all 1 [104, 105] () = (Some (Error ''rejected''), ())
   \<and> (\<exists>w'. readLoop
          ((fresh_client example_config)\<lparr>handler := Some reject_all, conn := Some 7, isConnected := True\<rparr>)
          ((world_of (Fin 0) [EvRead (Inr (1, [104, 105]))])\<lparr>open_conns := [7]\<rparr>)
        = (Returned (),
           (fresh_client example_config)\<lparr>handler := Some reject_all, conn := None, isConnected := False\<rparr>, w')
      \<and> open_conns w' = []
      \<and> logs w' = [(Err, ''message handler error'', [(''error'', LString ''rejected'')])])"
proof -
  let ?c = "(fresh_client example_config)\<lparr>handler := Some reject_all, conn := Some 7, isConnected := True\<rparr>"
  let ?w = "(world_of (Fin 0) [EvRead (Inr (1, [104, 105]))])\<lparr>open_conns := [7]\<rparr>"
  have h: "ctx_err (deliver_cancel ?w) = None" "conn ?c = Some 7"
    "next_event ?w = Some (EvRead (Inr (1, [104, 105])))" "handler ?c = Some reject_all"
    "reject_all 1 [104, 105] (hstate ?w) = (Some (Error ''rejected''), ())"
    by (simp_all add: eval_defs reject_all_def)
  from handler_error_disconnects[OF h] obtain w' where
    "readLoop ?c ?w = (Returned (), ?c\<lparr>conn := None, isConnected := False\<rparr>, w')"
    "open_conns w' = remove1 7 (open_conns ?w)"
    "logs w' = logs ?w @ [(Err, ''message handler error'', [(''error'', LString (error_msg (Error ''rejected'')))])]"
    by blast
  then have "readLoop ?c ?w = (Returned (),
           (fresh_client example_config)\<lparr>handler := Some reject_all, conn := None, isConnected := False\<rparr>, w')
      \<and> open_conns w' = []
      \<and> logs w' = [(Err, ''message handler error'', [(''error'', LString ''rejected'')])]"
    by (simp add: world_of_def fresh_client_def)
  moreover have "reject_all 1 [104, 105] () = (Some (Error ''rejected''), ())"
    by (simp add: reject_all_def)
  ultimately show ?thesis using h(1,3) by blast
qed

text \<open>
  Claim C8. If the dial fails, \<^verbatim>\<open>connect\<close> returns the dial's error and the client is
  exactly as it was. If the dial succeeds, \<^verbatim>\<open>connect\<close> returns no error and the client
  differs only by the handle, now the dialled connection, and the flag, now true, both
  set in one step. In no case does \<^verbatim>\<open>connect\<close> change the attempt counter.
\<close>

theorem connect_atomic:
  "(\<forall>err. next_event w = Some (EvDial (Inl err)) \<longrightarrow>
      (\<exists>w'. connect c w = (Returned (Some err), c, w') \<and> open_conns w' = open_conns w))
   \<and> (\<forall>k. next_event w = Some (EvDial (Inr k)) \<longrightarrow>
      (\<exists>w'. connect c w = (Returned None, c\<lparr>conn := Some k, isConnected := True\<rparr>, w')
           \<and> open_conns w' = open_conns w @ [k]))
   \<and> (\<forall>r c' w'. connect c w = (r, c', w') \<longrightarrow>
        reconnectCount c' = reconnectCount c
      \<and> (case r of
            Returned (Some err) \<Rightarrow> c' = c \<and> next_event w = Some (EvDial (Inl err))
          | Returned None \<Rightarrow>
              (\<exists>k. next_event w = Some (EvDial (Inr k)) \<and> c' = c\<lparr>conn := Some k, isConnected := True\<rparr>)
          | _ \<Rightarrow> c' = c))"
proof (intro conjI allI impI)
  fix err assume "next_event w = Some (EvDial (Inl err))"
  then show "\<exists>w'. connect c w = (Returned (Some err), c, w') \<and> open_conns w' = open_conns w"
    by (simp add: connect_cases)
next
  fix k assume "next_event w = Some (EvDial (Inr k))"
  then show "\<exists>w'. connect c w = (Returned None, c\<lparr>conn := Some k, isConnected := True\<rparr>, w')
           \<and> open_conns w' = open_conns w @ [k]"
    by (simp add: connect_cases)
next
  fix r c' w' assume a: "connect c w = (r, c', w')"
  from connect_client[OF a] show "reconnectCount c' = reconnectCount c"
    by (auto split: outcome.splits option.splits)
  from connect_client[OF a] show "case r of
            Returned (Some err) \<Rightarrow> c' = c \<and> next_event w = Some (EvDial (Inl err))
          | Returned None \<Rightarrow>
              (\<exists>k. next_event w = Some (EvDial (Inr k)) \<and> c' = c\<lparr>conn := Some k, isConnected := True\<rparr>)
          | _ \<Rightarrow> c' = c" .
qed

theorem connect_atomic_witness:
  "next_event (world_of (Fin 0) [EvDial (Inl (Error ''refused''))]) = Some (EvDial (Inl (Error ''refused'')))
   \<and> (\<exists>w'. connect ((fresh_client example_config)\<lparr>reconnectCount := 3\<rparr>)
                (world_of (Fin 0) [EvDial (Inl (Error ''refused''))])
             = (Returned (Some (Error ''refused'')), (fresh_client example_config)\<lparr>reconnectCount := 3\<rparr>, w'))
   \<and> next_event (world_of (Fin 0) [EvDial (Inr 7)]) = Some (EvDial (Inr 7))
   \<and> (\<exists>w'. connect ((fresh_client example_config)\<lparr>reconnectCount := 3\<rparr>)
                (world_of (Fin 0) [EvDial (Inr 7)])
             = (Returned None,
                (fresh_client example_config)\<lparr>reconnectCount := 3, conn := Some 7, isConnected := True\<rparr>, w')
           \<and> open_conns w' = [7])"
proof -
  let ?c = "(fresh_client example_config)\<lparr>reconnectCount := 3\<rparr>"
  let ?w1 = "world_of (Fin 0) [EvDial (Inl (Error ''refused''))]"
  let ?w2 = "world_of (Fin 0) [EvDial (Inr 7)]"
  have h1: "next_event ?w1 = Some (EvDial (Inl (Error ''refused'')))" by (simp add: eval_defs)
  have h2: "next_event ?w2 = Some (EvDial (Inr 7))" by (simp add: eval_defs)
  from connect_atomic[of ?w1 ?c] h1
  have a: "\<exists>w'. connect ?c ?w1 = (Returned (Some (Error ''refused'')), ?c, w')" by blast
  from connect_atomic[of ?w2 ?c] h2
  have "\<exists>w'. connect ?c ?w2 = (Returned None, ?c\<lparr>conn := Some 7, isConnected := True\<rparr>, w')
           \<and> open_conns w' = open_conns ?w2 @ [7]" by blast
  then have b: "\<exists>w'. connect ?c ?w2 = (Returned None,
                (fresh_client example_config)\<lparr>reconnectCount := 3, conn := Some 7, isConnected := True\<rparr>, w')
           \<and> open_conns w' = [7]"
    by (simp add: world_of_def fresh_client_def)
  from h1 a h2 b show ?thesis by blast
qed

text \<open>
  Claim C9. The flag is true exactly when a handle is installed: in the client that
  \<^verbatim>\<open>NewClient\<close> returns, after \<^verbatim>\<open>close\<close>, and, if it held before, after \<^verbatim>\<open>connect\<close>, after
  every iteration of the read loop and of \<^verbatim>\<open>Run\<close>, and after both loops. Inside the two
  blocks that the mutex guards, every state in which the mutex is not held satisfies
  it too. In such a state \<^verbatim>\<open>IsConnected\<close> answers whether a handle is installed.
\<close>

theorem flag_and_handle_consistent:
  "(\<forall>validate cfg h c0. NewClient validate cfg h = Inr (c0 :: 'h Client) \<longrightarrow> consistent c0)
   \<and> (\<forall>(c :: 'h Client) w. consistent (fst (close c w)))
   \<and> (\<forall>(c :: 'h Client) w r c' w'. consistent c \<and> connect c w = (r, c', w') \<longrightarrow> consistent c')
   \<and> (\<forall>(c :: 'h Client) w st c' w'. consistent c \<and> readLoop_step c w = (st, c', w') \<longrightarrow> consistent c')
   \<and> (\<forall>(c :: 'h Client) w out c' w'. consistent c \<and> readLoop c w = (out, c', w') \<longrightarrow> consistent c')
   \<and> (\<forall>(c :: 'h Client) w st c' w'. consistent c \<and> Run_step c w = (st, c', w') \<longrightarrow> consistent c')
   \<and> (\<forall>(c :: 'h Client) w out c' w'. consistent c \<and> Run c w = (out, c', w') \<longrightarrow> consistent c')
   \<and> (\<forall>c :: 'h Client. consistent c \<longrightarrow> (IsConnected c \<longleftrightarrow> conn c \<noteq> None))
   \<and> (\<forall>(c :: 'h Client) k. \<forall>(held, s) \<in> set (connect_locked c k). \<not> held \<longrightarrow> consistent s)
   \<and> (\<forall>c :: 'h Client. \<forall>(held, s) \<in> set (close_locked c). \<not> held \<longrightarrow> consistent s)
   \<and> (\<forall>(c :: 'h Client) w c' w'. connect c w = (Returned None, c', w') \<longrightarrow>
         (\<exists>k. snd (last (connect_locked c k)) = c'))
   \<and> (\<forall>(c :: 'h Client) w. snd (last (close_locked c)) = fst (close c w))"
proof (intro conjI allI impI)
  fix validate cfg h and c0 :: "'h Client"
  assume "NewClient validate cfg h = Inr c0"
  then show "consistent c0"
    by (auto simp: NewClient_def consistent_def split: option.splits)
next
  fix c :: "'h Client" and w
  show "consistent (fst (close c w))" by (simp add: close_eq)
next
  fix c :: "'h Client" and w r c' w'
  assume a: "consistent c \<and> connect c w = (r, c', w')"
  then have "connect c w = (r, c', w')" by simp
  from connect_client[OF this] a show "consistent c'"
    by (auto split: outcome.splits option.splits)
next
  fix c :: "'h Client" and w st c' w'
  assume "consistent c \<and> readLoop_step c w = (st, c', w')"
  then show "consistent c'" using readLoop_step_consistent by blast
next
  fix c :: "'h Client" and w out c' w'
  assume "consistent c \<and> readLoop c w = (out, c', w')"
  then show "consistent c'" using readLoop_consistent by blast
next
  fix c :: "'h Client" and w st c' w'
  assume "consistent c \<and> Run_step c w = (st, c', w')"
  then show "consistent c'" using Run_step_consistent by blast
next
  fix c :: "'h Client" and w out c' w'
  assume "consistent c \<and> Run c w = (out, c', w')"
  then show "consistent c'" using Run_consistent by blast
next
  fix c :: "'h Client"
  assume "consistent c"
  then show "IsConnected c \<longleftrightarrow> conn c \<noteq> None" by (simp add: consistent_def IsConnected_def)
next
  fix c :: "'h Client" and k
  show "\<forall>(held, s) \<in> set (connect_locked c k). \<not> held \<longrightarrow> consistent s"
    by (rule locked_consistent)
next
  fix c :: "'h Client"
  show "\<forall>(held, s) \<in> set (close_locked c). \<not> held \<longrightarrow> consistent s"
    by (rule locked_consistent)
next
  fix c :: "'h Client" and w c' w'
  assume "connect c w = (Returned None, c', w')"
  then show "\<exists>k. snd (last (connect_locked c k)) = c'" by (rule connect_locked_last)
next
  fix c :: "'h Client" and w
  show "snd (last (close_locked c)) = fst (close c w)" by (rule close_locked_last)
qed

theorem flag_and_handle_consistent_witness:
  "NewClient accept_all example_config None = Inr (fresh_client example_config)
   \<and> consistent (fresh_client example_config)
   \<and> consistent (fst (snd (Run (fresh_client example_config)
        (world_of (Fin 0) [EvDial (Inr 7), EvRead (Inr (1, [])), EvCancel (Error ''context canceled'')]))))
   \<and> consistent (fst (snd (connect (fresh_client example_config) (world_of (Fin 0) [EvDial (Inr 7)]))))
   \<and> IsConnected (fst (snd (connect (fresh_client example_config) (world_of (Fin 0) [EvDial (Inr 7)]))))
   \<and> conn (fst (snd (connect (fresh_client example_config) (world_of (Fin 0) [EvDial (Inr 7)])))) = Some 7
   \<and> (False, (fresh_client example_config)\<lparr>conn := Some 7, isConnected := True\<rparr>)
         \<in> set (connect_locked (fresh_client example_config) 7)
   \<and> consistent ((fresh_client example_config)\<lparr>conn := Some 7, isConnected := True\<rparr>)"
proof -
  let ?c = "fresh_client example_config"
  let ?w = "world_of (Fin 0) [EvDial (Inr 7), EvRead (Inr (1, [])), EvCancel (Error ''context canceled'')]"
  let ?v = "world_of (Fin 0) [EvDial (Inr 7)]"
  note t = flag_and_handle_consistent[where 'h = unit]
  note t_new = t[THEN conjunct1, rule_format]
    and t_connect = t[THEN conjunct2, THEN conjunct2, THEN conjunct1, rule_format]
    and t_run = t[THEN conjunct2, THEN conjunct2, THEN conjunct2, THEN conjunct2, THEN conjunct2,
                  THEN conjunct2, THEN conjunct1, rule_format]
    and t_obs = t[THEN conjunct2, THEN conjunct2, THEN conjunct2, THEN conjunct2, THEN conjunct2,
                  THEN conjunct2, THEN conjunct2, THEN conjunct1, rule_format]
    and t_lock = t[THEN conjunct2, THEN conjunct2, THEN conjunct2, THEN conjunct2, THEN conjunct2,
                   THEN conjunct2, THEN conjunct2, THEN conjunct2, THEN conjunct1, rule_format]
  have n: "NewClient accept_all example_config None = Inr ?c"
    by (simp add: NewClient_def accept_all_def fresh_client_def)
  from t_new[OF n] have c0: "consistent ?c" .
  have "Run ?c ?w = (fst (Run ?c ?w), fst (snd (Run ?c ?w)), snd (snd (Run ?c ?w)))" by simp
  with c0 have c1: "consistent (fst (snd (Run ?c ?w)))" by (intro t_run) blast
  have "connect ?c ?v = (fst (connect ?c ?v), fst (snd (connect ?c ?v)), snd (snd (connect ?c ?v)))" by simp
  with c0 have c2: "consistent (fst (snd (connect ?c ?v)))" by (intro t_connect) blast
  have k: "conn (fst (snd (connect ?c ?v))) = Some 7" by (simp add: eval_defs)
  with t_obs[OF c2] have "IsConnected (fst (snd (connect ?c ?v)))" by simp
  moreover have m: "(False, ?c\<lparr>conn := Some 7, isConnected := True\<rparr>) \<in> set (connect_locked ?c 7)"
    by (simp add: connect_locked_def)
  moreover from t_lock[OF m] have "consistent (?c\<lparr>conn := Some 7, isConnected := True\<rparr>)" by simp
  ultimately show ?thesis using n c0 c1 c2 k by blast
qed

text \<open>
  Claim C10. \<^verbatim>\<open>NewClient\<close> accepts a nil handler. With a nil handler and a connection, the
  read loop takes each message and continues with the client unchanged; the handler's
  state never changes; the loop returns only when the context is cancelled or a read
  fails; and while only messages arrive it stays in the loop, still connected.
\<close>

theorem nil_handler_discards:
  fixes c :: "'h Client"
  assumes "handler c = None" and "conn c \<noteq> None"
  shows "(\<forall>validate cfg. validate cfg = None \<longrightarrow>
            (\<exists>c0 :: 'h Client. NewClient validate cfg None = Inr c0 \<and> handler c0 = None))
       \<and> (\<forall>m. ctx_err (deliver_cancel w) = None \<and> next_event w = Some (EvRead (Inr m)) \<longrightarrow>
            readLoop_step c w = (Continue, c, (deliver_cancel w)\<lparr>script := tl (script (deliver_cancel w))\<rparr>))
       \<and> (\<forall>out c' w'. readLoop c w = (out, c', w') \<longrightarrow>
            hstate w' = hstate w
          \<and> (out = Returned () \<longrightarrow> ctx_err w' \<noteq> None \<or> (\<exists>err. EvRead (Inl err) \<in> set (script w))))
       \<and> (ctx_err w = None \<and> (\<forall>ev \<in> set (script w). \<exists>m. ev = EvRead (Inr m)) \<longrightarrow>
            (\<exists>w'. readLoop c w = (Blocked, c, w') \<and> open_conns w' = open_conns w))"
proof (intro conjI allI impI)
  fix validate :: "Config \<Rightarrow> error option" and cfg
  assume "validate cfg = None"
  then show "\<exists>c0 :: 'h Client. NewClient validate cfg None = Inr c0 \<and> handler c0 = None"
    by (simp add: NewClient_def)
next
  fix m
  assume "ctx_err (deliver_cancel w) = None \<and> next_event w = Some (EvRead (Inr m))"
  then show "readLoop_step c w = (Continue, c, (deliver_cancel w)\<lparr>script := tl (script (deliver_cancel w))\<rparr>)"
    using assms
    by (cases m) (auto simp: readLoop_step_def next_event_def Let_def split: list.splits)
next
  fix out c' w'
  assume "readLoop c w = (out, c', w')"
  from readLoop_nil_handler[OF assms(1) this]
  show "hstate w' = hstate w"
    and "out = Returned () \<Longrightarrow> ctx_err w' \<noteq> None \<or> (\<exists>err. EvRead (Inl err) \<in> set (script w))"
    by simp_all
next
  assume a: "ctx_err w = None \<and> (\<forall>ev \<in> set (script w). \<exists>m. ev = EvRead (Inr m))"
  obtain out c' w' where r: "readLoop c w = (out, c', w')" by (cases "readLoop c w")
  note f = readLoop_facts[OF r] and n = readLoop_nil_handler[OF assms(1) r]
  have nocancel: "ctx_err w' = None"
  proof (cases "ctx_err w'")
    case (Some e)
    with f a have "EvCancel e \<in> set (script w)" by auto
    with a show ?thesis by auto
  qed simp
  have noerr: "\<not> (\<exists>err. EvRead (Inl err) \<in> set (script w))" using a by auto
  have "out = Blocked"
  proof (cases out)
    case (Returned u)
    with n nocancel noerr show ?thesis by auto
  next
    case Panicked
    with f assms(2) show ?thesis by simp
  qed simp
  then show "\<exists>w'. readLoop c w = (Blocked, c, w') \<and> open_conns w' = open_conns w"
    using r f by auto
qed

theorem nil_handler_discards_witness:
  "handler ((fresh_client example_config)\<lparr>conn := Some 7, isConnected := True\<rparr>) = None
   \<and> conn ((fresh_client example_config)\<lparr>conn := Some 7, isConnected := True\<rparr>) \<noteq> None
   \<and> ctx_err ((world_of (Fin 0) [EvRead (Inr (1, [104])), EvRead (Inr (2, []))])\<lparr>open_conns := [7]\<rparr>) = None
   \<and> (\<exists>w'. readLoop ((fresh_client example_config)\<lparr>conn := Some 7, isConnected := True\<rparr>)
                ((world_of (Fin 0) [EvRead (Inr (1, [104])), EvRead (Inr (2, []))])\<lparr>open_conns := [7]\<rparr>)
             = (Blocked, (fresh_client example_config)\<lparr>conn := Some 7, isConnected := True\<rparr>, w')
           \<and> open_conns w' = [7])
   \<and> (\<exists>c0 :: unit Client. NewClient accept_all example_config None = Inr c0 \<and> handler c0 = None)"
proof -
  let ?c = "(fresh_client example_config)\<lparr>conn := Some 7, isConnected := True\<rparr>"
  let ?w = "(world_of (Fin 0) [EvRead (Inr (1, [104])), EvRead (Inr (2, []))])\<lparr>open_conns := [7]\<rparr>"
  have h: "handler ?c = None" "conn ?c \<noteq> None" by (simp_all add: fresh_client_def)
  have g: "ctx_err ?w = None" "\<forall>ev \<in> set (script ?w). \<exists>m. ev = EvRead (Inr m)"
    by (simp_all add: world_of_def)
  note t = nil_handler_discards[OF h, of ?w]
  from t g have "\<exists>w'. readLoop ?c ?w = (Blocked, ?c, w') \<and> open_conns w' = open_conns ?w" by blast
  then have a: "\<exists>w'. readLoop ?c ?w = (Blocked, ?c, w') \<and> open_conns w' = [7]"
    by (simp add: world_of_def)
  have "accept_all example_config = None" by (simp add: accept_all_def)
  with t have b: "\<exists>c0 :: unit Client. NewClient accept_all example_config None = Inr c0 \<and> handler c0 = None"
    by blast
  from h g(1) a b show ?thesis by blast
qed

end
